theory Spec2Isabelle
  imports Main "HOL-Library.Multiset" "HOL-Library.Product_Lexorder"
begin

section \<open>Text, paths and the file system\<close>

text \<open>
  A Python \<open>str\<close> is modelled as a HOL \<open>string\<close> whose characters stand for code points
  (below 256). Files hold text: a file's content is the character sequence it decodes to,
  so the lossy \<open>errors="ignore"\<close> decoding of \<open>read_text\<close> is the identity here. The
  platform is POSIX: \<open>write_text\<close> stores the text as it is, \<open>read_text\<close> applies Python's
  universal-newline translation, and \<open>os.path.normcase\<close> is the identity.
\<close>

definition CR :: char where "CR = CHR 0x0D"
definition LF :: char where "LF = CHR 0x0A"

text \<open>Text-mode reading turns \<open>\r\n\<close> and a lone \<open>\r\<close> into \<open>\n\<close>.\<close>

fun universal_newlines :: "string \<Rightarrow> string" where
  "universal_newlines [] = []"
| "universal_newlines [c] = (if c = CR then [LF] else [c])"
| "universal_newlines (c # d # cs) =
     (if c = CR then
        (if d = LF then LF # universal_newlines cs else LF # universal_newlines (d # cs))
      else c # universal_newlines (d # cs))"

text \<open>
  \<open>str.splitlines(True)\<close>: the text is cut after every line boundary and the boundary is
  kept; \<open>\r\n\<close> counts as one boundary. A last line without a boundary is a line too.
\<close>

definition line_boundary :: "char \<Rightarrow> bool" where
  "line_boundary c \<longleftrightarrow>
     c \<in> set [CHR 0x0A, CHR 0x0D, CHR 0x0B, CHR 0x0C, CHR 0x1C, CHR 0x1D, CHR 0x1E, CHR 0x85]"

fun splitlines_from :: "string \<Rightarrow> string \<Rightarrow> string list" where
  "splitlines_from cur [] = (if cur = [] then [] else [cur])"
| "splitlines_from cur [c] = (if line_boundary c then [cur @ [c]] else [cur @ [c]])"
| "splitlines_from cur (c # d # cs) =
     (if c = CR \<and> d = LF then (cur @ [c, d]) # splitlines_from [] cs
      else if line_boundary c then (cur @ [c]) # splitlines_from [] (d # cs)
      else splitlines_from (cur @ [c]) (d # cs))"

definition splitlines :: "string \<Rightarrow> string list" where
  "splitlines s = splitlines_from [] s"

subsection \<open>Paths\<close>

text \<open>
  An absolute path is the list of its components below the file-system root (\<open>[]\<close> is
  \<open>/\<close>). The file system has no symbolic links, so \<open>Path.resolve\<close> is the lexical
  removal of \<open>..\<close> components. Paths that begin with exactly two slashes are not
  distinguished from those with one.
\<close>

type_synonym path = "string list"

datatype error = ValueError | IsADirectoryError | FileNotFoundError | PermissionError | OSError

fun split_slash :: "string \<Rightarrow> string \<Rightarrow> string list" where
  "split_slash cur [] = [cur]"
| "split_slash cur (c # cs) =
     (if c = CHR ''/'' then cur # split_slash [] cs else split_slash (cur @ [c]) cs)"

text \<open>Parsing a path string drops empty and \<open>.\<close> components and keeps \<open>..\<close>.\<close>

definition path_parts :: "string \<Rightarrow> string list" where
  "path_parts s = filter (\<lambda>p. p \<noteq> [] \<and> p \<noteq> ''.'') (split_slash [] s)"

definition is_absolute :: "string \<Rightarrow> bool" where
  "is_absolute s = (case s of [] \<Rightarrow> False | c # _ \<Rightarrow> c = CHR ''/'')"

text \<open>\<open>repo_root / s\<close>: an absolute right operand replaces the left one.\<close>

definition joinpath :: "path \<Rightarrow> string \<Rightarrow> string list" where
  "joinpath root s = (if is_absolute s then path_parts s else root @ path_parts s)"

fun resolve_from :: "path \<Rightarrow> string list \<Rightarrow> path" where
  "resolve_from acc [] = acc"
| "resolve_from acc (p # ps) =
     (if p = ''..'' then resolve_from (butlast acc) ps else resolve_from (acc @ [p]) ps)"

definition resolve :: "string list \<Rightarrow> path" where
  "resolve ps = resolve_from [] ps"

text \<open>
  \<open>Path.resolve\<close> raises \<open>ValueError\<close> when a component holds a null character;
  \<open>resolve\<close> is its result for every other path.
\<close>

definition embedded_null :: "string list \<Rightarrow> bool" where
  "embedded_null ps \<longleftrightarrow> list_ex (\<lambda>name. CHR 0x00 \<in> set name) ps"

text \<open>\<open>p.relative_to(root)\<close> raises \<open>ValueError\<close> unless \<open>root\<close> is a prefix of \<open>p\<close>.\<close>

definition relative_to :: "path \<Rightarrow> path \<Rightarrow> error + string list" where
  "relative_to p root =
     (if take (length root) p = root then Inr (drop (length root) p) else Inl ValueError)"

fun join_slash :: "string list \<Rightarrow> string" where
  "join_slash [] = []"
| "join_slash [p] = p"
| "join_slash (p # q # ps) = p @ ''/'' @ join_slash (q # ps)"

text \<open>\<open>as_posix\<close> of a relative path; the empty relative path prints as a dot.\<close>

definition as_posix :: "string list \<Rightarrow> string" where
  "as_posix ps = (if ps = [] then ''.'' else join_slash ps)"

text \<open>\<open>name.rfind('.')\<close>, and \<open>PurePath.suffix\<close>: the last dot and what follows it, unless
  that dot is the first or the last character of the name.\<close>

definition rfind_dot :: "string \<Rightarrow> nat option" where
  "rfind_dot name =
     (let k = length (takeWhile (\<lambda>c. c \<noteq> CHR ''.'') (rev name))
      in if k = length name then None else Some (length name - 1 - k))"

definition suffix_of :: "string \<Rightarrow> string" where
  "suffix_of name =
     (case rfind_dot name of
        None \<Rightarrow> []
      | Some i \<Rightarrow> if 0 < i \<and> i < length name - 1 then drop i name else [])"

text \<open>
  \<open>PurePath.with_suffix\<close>: a path with an empty name (the root) raises \<open>ValueError\<close>;
  otherwise the old suffix, if any, is cut off the name and the new one appended. Both
  call sites pass a well-formed suffix, so the check of the argument is left out.
\<close>

definition with_suffix :: "path \<Rightarrow> string \<Rightarrow> error + path" where
  "with_suffix p s =
     (if p = [] \<or> last p = [] then Inl ValueError
      else let name = last p; old = suffix_of name;
               name' = (if old = [] then name @ s
                        else take (length name - length old) name @ s)
           in Inr (butlast p @ [name']))"

subsection \<open>Files\<close>

text \<open>
  The file system maps a path to what lies there: a regular file, a file without write
  permission (it can be read and removed, not written), a directory, or a path at which
  the system call \<open>stat\<close> fails with an error other than "no such file" (a directory on
  the way that may not be searched, for instance). On every file system a path with a name
  of more than 255 bytes, or of 4096 bytes or more in all, is such a path (the limits of
  Linux; a character above 127 takes two bytes in UTF-8). The directory of a path that is
  written is taken to exist and to be writable; a full disk is left out.
\<close>

datatype node = File string | ReadOnly string | Dir | Unreachable

type_synonym fs = "path \<rightharpoonup> node"

definition utf8_length :: "string \<Rightarrow> nat" where
  "utf8_length s = sum_list (map (\<lambda>c. if (of_char c :: nat) < 128 then 1 else 2) s)"

definition name_too_long :: "path \<Rightarrow> bool" where
  "name_too_long p \<longleftrightarrow>
     list_ex (\<lambda>name. 255 < utf8_length name) p
     \<or> 4096 \<le> sum_list (map (\<lambda>name. Suc (utf8_length name)) p)"

definition stat :: "fs \<Rightarrow> path \<Rightarrow> node option" where
  "stat files p = (if name_too_long p then Some Unreachable else files p)"

text \<open>\<open>Path.exists\<close> answers \<open>False\<close> when there is no such file and raises every other
  error of \<open>stat\<close> again.\<close>

definition path_exists :: "fs \<Rightarrow> path \<Rightarrow> error + bool" where
  "path_exists files p =
     (case stat files p of
        None \<Rightarrow> Inr False
      | Some Unreachable \<Rightarrow> Inl OSError
      | Some _ \<Rightarrow> Inr True)"

definition read_text :: "fs \<Rightarrow> path \<Rightarrow> error + string" where
  "read_text files p =
     (case stat files p of
        None \<Rightarrow> Inl FileNotFoundError
      | Some Dir \<Rightarrow> Inl IsADirectoryError
      | Some Unreachable \<Rightarrow> Inl OSError
      | Some (File t) \<Rightarrow> Inr (universal_newlines t)
      | Some (ReadOnly t) \<Rightarrow> Inr (universal_newlines t))"

text \<open>A failed write leaves the file system as it was.\<close>

definition write_text :: "fs \<Rightarrow> path \<Rightarrow> string \<Rightarrow> error + fs" where
  "write_text files p t =
     (case stat files p of
        Some Dir \<Rightarrow> Inl IsADirectoryError
      | Some (ReadOnly _) \<Rightarrow> Inl PermissionError
      | Some Unreachable \<Rightarrow> Inl OSError
      | _ \<Rightarrow> Inr (files(p \<mapsto> File t)))"

definition unlink :: "fs \<Rightarrow> path \<Rightarrow> error + fs" where
  "unlink files p =
     (case stat files p of
        None \<Rightarrow> Inl FileNotFoundError
      | Some Dir \<Rightarrow> Inl IsADirectoryError
      | Some Unreachable \<Rightarrow> Inl OSError
      | Some _ \<Rightarrow> Inr (files(p := None)))"

section \<open>Shell patterns: \<open>fnmatch.fnmatch\<close>\<close>

text \<open>
  \<open>fnmatch.translate\<close> turns a pattern into a regular expression that is matched against
  the whole name: \<open>*\<close> matches any text, \<open>?\<close> any one character, a bracket expression one
  character of a class, and everything else itself. The model keeps the translation's
  treatment of bracket expressions: how the closing bracket is found, the cutting of the
  expression at range hyphens, the removal of descending ranges, and the reading of the
  result as a character class (a leading \<open>!\<close> negates; a hyphen that joins two chunks is a
  range; every other character is literal).
\<close>

datatype ctok = Ch char | Hy

datatype gtok = GStar | GAny | GLit char | GClass bool "(char \<times> char) list"

text \<open>The index of the bracket that closes an expression, in the text after \<open>[\<close>.\<close>

definition find_close :: "string \<Rightarrow> nat option" where
  "find_close cs =
     (let j0 = (if 0 < length cs \<and> cs ! 0 = CHR ''!'' then 1 else 0);
          j1 = (if j0 < length cs \<and> cs ! j0 = CHR '']'' then j0 + 1 else j0);
          j2 = j1 + length (takeWhile (\<lambda>c. c \<noteq> CHR '']'') (drop j1 cs))
      in if j2 \<ge> length cs then None else Some j2)"

text \<open>The chunks between range hyphens: after a hyphen the search for the next one
  skips two characters; at the start it skips one, or two after \<open>!\<close>.\<close>

fun chunks_from :: "nat \<Rightarrow> string \<Rightarrow> string \<Rightarrow> string list" where
  "chunks_from skip cur [] = [cur]"
| "chunks_from skip cur (c # cs) =
     (if skip = 0 \<and> c = CHR ''-'' then cur # chunks_from 2 [] cs
      else chunks_from (skip - 1) (cur @ [c]) cs)"

definition split_chunks :: "string \<Rightarrow> string list" where
  "split_chunks stuff =
     (let cs = chunks_from (if stuff \<noteq> [] \<and> hd stuff = CHR ''!'' then 2 else 1) [] stuff
      in if last cs = [] \<and> butlast cs \<noteq> []
         then butlast (butlast cs) @ [last (butlast cs) @ ''-'']
         else cs)"

fun remove_empty_ranges :: "string list \<Rightarrow> string list" where
  "remove_empty_ranges [] = []"
| "remove_empty_ranges [c] = [c]"
| "remove_empty_ranges (c # c' # cs) =
     (case remove_empty_ranges (c' # cs) of
        [] \<Rightarrow> [c]
      | d # ds \<Rightarrow>
          if c \<noteq> [] \<and> d \<noteq> [] \<and> (of_char (last c) :: nat) > of_char (hd d)
          then (butlast c @ tl d) # ds
          else c # d # ds)"

fun join_hy :: "string list \<Rightarrow> ctok list" where
  "join_hy [] = []"
| "join_hy [c] = map Ch c"
| "join_hy (c # c' # cs) = map Ch c @ Hy # join_hy (c' # cs)"

definition class_toks :: "string \<Rightarrow> ctok list" where
  "class_toks stuff =
     (if CHR ''-'' \<notin> set stuff then map Ch stuff
      else join_hy (remove_empty_ranges (split_chunks stuff)))"

fun tok_char :: "ctok \<Rightarrow> char" where
  "tok_char (Ch c) = c"
| "tok_char Hy = CHR ''-''"

fun class_items :: "ctok list \<Rightarrow> (char \<times> char) list" where
  "class_items (t # Hy # u # rest) = (tok_char t, tok_char u) # class_items rest"
| "class_items (t # rest) = (tok_char t, tok_char t) # class_items rest"
| "class_items [] = []"

definition bracket_class :: "string \<Rightarrow> gtok" where
  "bracket_class stuff =
     (let ts = class_toks stuff
      in if ts \<noteq> [] \<and> hd ts = Ch (CHR ''!'') then GClass True (class_items (tl ts))
         else GClass False (class_items ts))"

function translate :: "string \<Rightarrow> gtok list" where
  "translate [] = []"
| "translate (c # cs) =
     (if c = CHR ''*'' then GStar # translate cs
      else if c = CHR ''?'' then GAny # translate cs
      else if c = CHR ''['' then
        (case find_close cs of
           None \<Rightarrow> GLit c # translate cs
         | Some j \<Rightarrow> bracket_class (take j cs) # translate (drop (Suc j) cs))
      else GLit c # translate cs)"
  by pat_completeness auto
termination
  by (relation "measure length") auto

fun tok_matches :: "gtok \<Rightarrow> char \<Rightarrow> bool" where
  "tok_matches GStar c = True"
| "tok_matches GAny c = True"
| "tok_matches (GLit x) c = (x = c)"
| "tok_matches (GClass neg items) c =
     ((\<exists>(lo, hi) \<in> set items. (of_char lo :: nat) \<le> of_char c \<and> (of_char c :: nat) \<le> of_char hi)
      \<noteq> neg)"

fun gmatch :: "gtok list \<Rightarrow> string \<Rightarrow> bool" where
  "gmatch [] s = (s = [])"
| "gmatch (GStar # ts) [] = gmatch ts []"
| "gmatch (GStar # ts) (c # cs) = (gmatch ts (c # cs) \<or> gmatch (GStar # ts) cs)"
| "gmatch (t # ts) [] = False"
| "gmatch (t # ts) (c # cs) = (tok_matches t c \<and> gmatch ts cs)"

definition fnmatch :: "string \<Rightarrow> string \<Rightarrow> bool" where
  "fnmatch name pat = gmatch (translate pat) name"

section \<open>Configuration and the scope guard\<close>

text \<open>The configuration is a JSON object; each recognised key may be absent.\<close>

record config =
  file_scopes :: "string list option"
  excludes :: "string list option"
  max_change_lines :: "int option"

definition cfg_excludes :: "config \<Rightarrow> string list" where
  "cfg_excludes cfg = (case excludes cfg of None \<Rightarrow> [] | Some xs \<Rightarrow> xs)"

definition cfg_file_scopes :: "config \<Rightarrow> string list" where
  "cfg_file_scopes cfg = (case file_scopes cfg of None \<Rightarrow> [] | Some xs \<Rightarrow> xs)"

definition cfg_max_change_lines :: "config \<Rightarrow> int" where
  "cfg_max_change_lines cfg = (case max_change_lines cfg of None \<Rightarrow> 120 | Some n \<Rightarrow> n)"

definition within_scope :: "string \<Rightarrow> config \<Rightarrow> bool" where
  "within_scope rel_path cfg =
     (if list_ex (\<lambda>ex. fnmatch rel_path ex) (cfg_excludes cfg) then False
      else if cfg_file_scopes cfg = [] then True
      else list_ex (\<lambda>pat. fnmatch rel_path pat) (cfg_file_scopes cfg))"

section \<open>The diff sizer: \<open>difflib.ndiff\<close>\<close>

text \<open>
  \<open>ndiff\<close> compares two lists of lines with a \<open>SequenceMatcher\<close> that has no junk
  predicate. The matcher's heuristic that sets aside very frequent lines starts only when
  the second list has 200 lines or more and is not modelled. A match is a triple
  \<open>(i, j, k)\<close>: \<open>a[i:i+k] = b[j:j+k]\<close>.
\<close>

type_synonym match = "nat \<times> nat \<times> nat"

text \<open>
  One row of \<open>find_longest_match\<close>: \<open>j2len j\<close> is the length of the longest match that
  ends with \<open>a[i]\<close> and \<open>b[j]\<close> (0 stands for an absent key); the best match is replaced
  only by a strictly longer one, the columns being visited in ascending order.
\<close>

fun scan_row :: "(nat \<Rightarrow> nat) \<Rightarrow> nat \<Rightarrow> nat list \<Rightarrow> match \<Rightarrow> match" where
  "scan_row row i [] best = best"
| "scan_row row i (j # js) (besti, bestj, bestsize) =
     (let k = row j
      in scan_row row i js
           (if k > bestsize then (i + 1 - k, j + 1 - k, k) else (besti, bestj, bestsize)))"

definition new_row :: "'a list \<Rightarrow> 'a list \<Rightarrow> nat \<Rightarrow> nat \<Rightarrow> nat \<Rightarrow> (nat \<Rightarrow> nat) \<Rightarrow> nat \<Rightarrow> nat" where
  "new_row a b blo bhi i j2len =
     (\<lambda>j. if blo \<le> j \<and> j < bhi \<and> b ! j = a ! i
          then (if j = 0 then 0 else j2len (j - 1)) + 1 else 0)"

fun lm_loop ::
  "'a list \<Rightarrow> 'a list \<Rightarrow> nat \<Rightarrow> nat \<Rightarrow> nat list \<Rightarrow> (nat \<Rightarrow> nat) \<Rightarrow> match \<Rightarrow> match" where
  "lm_loop a b blo bhi [] j2len best = best"
| "lm_loop a b blo bhi (i # is) j2len best =
     (let newj2len = new_row a b blo bhi i j2len
      in lm_loop a b blo bhi is newj2len (scan_row newj2len i [blo..<bhi] best))"

function extend_left :: "'a list \<Rightarrow> 'a list \<Rightarrow> nat \<Rightarrow> nat \<Rightarrow> match \<Rightarrow> match" where
  "extend_left a b alo blo (besti, bestj, bestsize) =
     (if besti > alo \<and> bestj > blo \<and> a ! (besti - 1) = b ! (bestj - 1)
      then extend_left a b alo blo (besti - 1, bestj - 1, bestsize + 1)
      else (besti, bestj, bestsize))"
  by pat_completeness auto
termination
  by (relation "measure (\<lambda>(a, b, alo, blo, besti, bestj, bestsize). besti)") auto

function extend_right :: "'a list \<Rightarrow> 'a list \<Rightarrow> nat \<Rightarrow> nat \<Rightarrow> match \<Rightarrow> match" where
  "extend_right a b ahi bhi (besti, bestj, bestsize) =
     (if besti + bestsize < ahi \<and> bestj + bestsize < bhi
         \<and> a ! (besti + bestsize) = b ! (bestj + bestsize)
      then extend_right a b ahi bhi (besti, bestj, bestsize + 1)
      else (besti, bestj, bestsize))"
  by pat_completeness auto
termination
  by (relation "measure (\<lambda>(a, b, ahi, bhi, besti, bestj, bestsize). ahi - (besti + bestsize))")
     auto

declare extend_left.simps [simp del] extend_right.simps [simp del]

definition find_longest_match ::
  "'a list \<Rightarrow> 'a list \<Rightarrow> nat \<Rightarrow> nat \<Rightarrow> nat \<Rightarrow> nat \<Rightarrow> match" where
  "find_longest_match a b alo ahi blo bhi =
     extend_right a b ahi bhi
       (extend_left a b alo blo
          (lm_loop a b blo bhi [alo..<ahi] (\<lambda>j. 0) (alo, blo, 0)))"

text \<open>
  The bounds of the match that \<open>find_longest_match\<close> returns; the work list of
  \<open>get_matching_blocks\<close> terminates because of them.
\<close>

definition best_ok :: "nat \<Rightarrow> nat \<Rightarrow> nat \<Rightarrow> nat \<Rightarrow> match \<Rightarrow> bool" where
  "best_ok alo ahi blo bhi m =
     (case m of (i, j, k) \<Rightarrow>
        alo \<le> i \<and> blo \<le> j \<and> (k = 0 \<longrightarrow> i = alo \<and> j = blo)
        \<and> (0 < k \<longrightarrow> i + k \<le> ahi \<and> j + k \<le> bhi))"

definition row_ok :: "nat \<Rightarrow> nat \<Rightarrow> nat \<Rightarrow> (nat \<Rightarrow> nat) \<Rightarrow> bool" where
  "row_ok alo blo i row =
     (\<forall>j. row j \<le> i - alo \<and> row j \<le> Suc j - blo \<and> (0 < row j \<longrightarrow> blo \<le> j))"

lemma new_row_ok:
  assumes "row_ok alo blo i row" and "alo \<le> i"
  shows "row_ok alo blo (Suc i) (new_row a b blo bhi i row)"
    and "\<forall>j. 0 < new_row a b blo bhi i row j \<longrightarrow> j < bhi"
proof -
  have step: "new_row a b blo bhi i row j \<le> Suc i - alo
      \<and> new_row a b blo bhi i row j \<le> Suc j - blo
      \<and> (0 < new_row a b blo bhi i row j \<longrightarrow> blo \<le> j)" for j
  proof (cases "j = 0")
    case True
    then show ?thesis using assms(2) by (auto simp: new_row_def)
  next
    case False
    from assms(1) have p: "row (j - 1) \<le> i - alo" "row (j - 1) \<le> Suc (j - 1) - blo"
      "0 < row (j - 1) \<longrightarrow> blo \<le> j - 1"
      by (simp_all add: row_ok_def)
    show ?thesis
    proof (cases "row (j - 1) = 0")
      case True
      then show ?thesis using False assms(2) by (auto simp: new_row_def)
    next
      case nz: False
      with p have "blo \<le> j - 1" by simp
      with p False assms(2) show ?thesis by (auto simp: new_row_def)
    qed
  qed
  then show "row_ok alo blo (Suc i) (new_row a b blo bhi i row)"
    by (simp add: row_ok_def)
  show "\<forall>j. 0 < new_row a b blo bhi i row j \<longrightarrow> j < bhi"
    by (simp add: new_row_def)
qed

lemma scan_row_ok:
  assumes "row_ok alo blo (Suc i) row" and "\<forall>j. 0 < row j \<longrightarrow> j < bhi"
    and "alo \<le> i" and "i < ahi"
  shows "best_ok alo ahi blo bhi best \<Longrightarrow> best_ok alo ahi blo bhi (scan_row row i js best)"
proof (induction js arbitrary: best)
  case Nil
  then show ?case by simp
next
  case (Cons j js)
  obtain bi bj bs where best: "best = (bi, bj, bs)" by (cases best)
  show ?case
  proof (cases "row j > bs")
    case False
    with Cons best show ?thesis by (simp add: Let_def)
  next
    case True
    from assms(1) have r: "row j \<le> Suc i - alo" "row j \<le> Suc j - blo"
      by (simp_all add: row_ok_def)
    from True assms(2) have "j < bhi" by simp
    with r True assms(3,4) have "best_ok alo ahi blo bhi (Suc i - row j, Suc j - row j, row j)"
      by (auto simp: best_ok_def)
    then have "best_ok alo ahi blo bhi (scan_row row i js (Suc i - row j, Suc j - row j, row j))"
      by (rule Cons.IH)
    with True best show ?thesis by (simp add: Let_def)
  qed
qed

lemma lm_loop_ok:
  assumes "best_ok alo ahi blo bhi best" and "row_ok alo blo m row" and "alo \<le> m"
  shows "best_ok alo ahi blo bhi (lm_loop a b blo bhi [m..<ahi] row best)"
  using assms
proof (induction "ahi - m" arbitrary: m row best)
  case 0
  then show ?case by simp
next
  case (Suc n)
  then have lt: "m < ahi" by simp
  let ?row = "new_row a b blo bhi m row"
  from Suc.prems have r1: "row_ok alo blo (Suc m) ?row" and r2: "\<forall>j. 0 < ?row j \<longrightarrow> j < bhi"
    by (simp_all add: new_row_ok)
  from r1 r2 Suc.prems(3) lt Suc.prems(1)
  have b: "best_ok alo ahi blo bhi (scan_row ?row m [blo..<bhi] best)"
    by (rule scan_row_ok)
  from Suc.hyps(2) have "n = ahi - Suc m" by simp
  from Suc.hyps(1) [OF this b r1] Suc.prems(3)
  have "best_ok alo ahi blo bhi
          (lm_loop a b blo bhi [Suc m..<ahi] ?row (scan_row ?row m [blo..<bhi] best))"
    by simp
  with lt show ?case by (simp add: upt_conv_Cons Let_def)
qed

lemma extend_left_ok:
  "best_ok alo ahi blo bhi m \<Longrightarrow> best_ok alo ahi blo bhi (extend_left a b alo blo m)"
proof (induction a b alo blo m rule: extend_left.induct)
  case (1 a b alo blo besti bestj bestsize)
  show ?case
  proof (cases "besti > alo \<and> bestj > blo \<and> a ! (besti - 1) = b ! (bestj - 1)")
    case True
    with "1.prems" have "best_ok alo ahi blo bhi (besti - 1, bestj - 1, bestsize + 1)"
      by (auto simp: best_ok_def)
    with True "1.IH" show ?thesis by (subst extend_left.simps) simp
  next
    case False
    with "1.prems" show ?thesis by (subst extend_left.simps) auto
  qed
qed

lemma extend_right_ok:
  "best_ok alo ahi blo bhi m \<Longrightarrow> best_ok alo ahi blo bhi (extend_right a b ahi bhi m)"
proof (induction a b ahi bhi m rule: extend_right.induct)
  case (1 a b ahi bhi besti bestj bestsize)
  show ?case
  proof (cases "besti + bestsize < ahi \<and> bestj + bestsize < bhi
      \<and> a ! (besti + bestsize) = b ! (bestj + bestsize)")
    case True
    with "1.prems" have "best_ok alo ahi blo bhi (besti, bestj, bestsize + 1)"
      by (auto simp: best_ok_def)
    with True "1.IH" show ?thesis by (subst extend_right.simps) simp
  next
    case False
    with "1.prems" show ?thesis by (subst extend_right.simps) auto
  qed
qed

lemma find_longest_match_ok:
  "best_ok alo ahi blo bhi (find_longest_match a b alo ahi blo bhi)"
proof -
  have "best_ok alo ahi blo bhi (alo, blo, 0)" by (simp add: best_ok_def)
  moreover have "row_ok alo blo alo (\<lambda>j. 0)" by (simp add: row_ok_def)
  ultimately have "best_ok alo ahi blo bhi (lm_loop a b blo bhi [alo..<ahi] (\<lambda>j. 0) (alo, blo, 0))"
    by (rule lm_loop_ok) simp
  then show ?thesis
    unfolding find_longest_match_def by (intro extend_right_ok extend_left_ok)
qed

lemma find_longest_match_bounds:
  assumes "find_longest_match a b alo ahi blo bhi = (i, j, k)" and "k \<noteq> 0"
  shows "alo \<le> i" and "i + k \<le> ahi" and "blo \<le> j" and "j + k \<le> bhi"
  using find_longest_match_ok [of alo ahi blo bhi a b] assms
  by (simp_all add: best_ok_def)

text \<open>
  \<open>get_matching_blocks\<close>: the work list is a stack (its head is the top); the region right
  of a match is pushed last and therefore handled first. The blocks found are sorted,
  adjacent blocks are merged, and a sentinel ends the list.
\<close>

type_synonym region = "nat \<times> nat \<times> nat \<times> nat"

definition region_size :: "region \<Rightarrow> nat" where
  "region_size r = (case r of (alo, ahi, blo, bhi) \<Rightarrow> 2 * (ahi - alo) + 1)"

function mb_loop :: "'a list \<Rightarrow> 'a list \<Rightarrow> region list \<Rightarrow> match list \<Rightarrow> match list" where
  "mb_loop a b [] matching_blocks = matching_blocks"
| "mb_loop a b ((alo, ahi, blo, bhi) # queue) matching_blocks =
     (let x = find_longest_match a b alo ahi blo bhi;
          i = fst x; j = fst (snd x); k = snd (snd x)
      in if k \<noteq> 0 then
           mb_loop a b
             ((if i + k < ahi \<and> j + k < bhi then [(i + k, ahi, j + k, bhi)] else []) @
              (if alo < i \<and> blo < j then [(alo, i, blo, j)] else []) @ queue)
             (matching_blocks @ [x])
         else mb_loop a b queue matching_blocks)"
  by pat_completeness auto
termination
proof (relation "measure (\<lambda>(a, b, queue, blocks). sum_list (map region_size queue))",
    goal_cases)
  case 1
  show ?case by simp
next
  case (2 a b alo ahi blo bhi queue matching_blocks x i j k)
  then have m: "find_longest_match a b alo ahi blo bhi = (i, j, k)" and k: "k \<noteq> 0"
    by simp_all
  note bd = find_longest_match_bounds [OF m k]
  have "sum_list (map region_size
          ((if i + k < ahi \<and> j + k < bhi then [(i + k, ahi, j + k, bhi)] else []) @
           (if alo < i \<and> blo < j then [(alo, i, blo, j)] else []) @ queue))
        < sum_list (map region_size ((alo, ahi, blo, bhi) # queue))"
    using bd(1,2) k by (simp add: region_size_def) arith
  then show ?case by simp
next
  case (3 a b alo ahi blo bhi queue matching_blocks x i j k)
  show ?case by (simp add: region_size_def)
qed

declare mb_loop.simps [simp del]

fun collapse :: "match \<Rightarrow> match list \<Rightarrow> match list" where
  "collapse (i1, j1, k1) [] = (if k1 \<noteq> 0 then [(i1, j1, k1)] else [])"
| "collapse (i1, j1, k1) ((i2, j2, k2) # rest) =
     (if i1 + k1 = i2 \<and> j1 + k1 = j2 then collapse (i1, j1, k1 + k2) rest
      else (if k1 \<noteq> 0 then [(i1, j1, k1)] else []) @ collapse (i2, j2, k2) rest)"

definition get_matching_blocks :: "'a list \<Rightarrow> 'a list \<Rightarrow> match list" where
  "get_matching_blocks a b =
     collapse (0, 0, 0) (sort (mb_loop a b [(0, length a, 0, length b)] []))
     @ [(length a, length b, 0)]"

datatype tag = Replace | Delete | Insert | Equal

type_synonym opcode = "tag \<times> nat \<times> nat \<times> nat \<times> nat"

fun opcodes_from :: "nat \<Rightarrow> nat \<Rightarrow> match list \<Rightarrow> opcode list" where
  "opcodes_from i j [] = []"
| "opcodes_from i j ((ai, bj, sz) # rest) =
     (if i < ai \<and> j < bj then [(Replace, i, ai, j, bj)]
      else if i < ai then [(Delete, i, ai, j, bj)]
      else if j < bj then [(Insert, i, ai, j, bj)]
      else [])
     @ (if sz \<noteq> 0 then [(Equal, ai, ai + sz, bj, bj + sz)] else [])
     @ opcodes_from (ai + sz) (bj + sz) rest"

definition get_opcodes :: "'a list \<Rightarrow> 'a list \<Rightarrow> opcode list" where
  "get_opcodes a b = opcodes_from 0 0 (get_matching_blocks a b)"

text \<open>
  \<open>Differ.compare\<close> prints every line of an opcode's ranges behind a two-character tag.
  In a replaced block the lines of \<open>a\<close> are printed with \<open>-\<close> and those of \<open>b\<close> with \<open>+\<close>,
  the shorter side first. The library's pairing of similar lines inside such a block
  only reorders these lines and adds hint lines that begin with \<open>?\<close>; the block holds no
  two equal lines, so no line of it is printed as unchanged. The hint lines are left out.
\<close>

definition dump :: "char \<Rightarrow> string list \<Rightarrow> nat \<Rightarrow> nat \<Rightarrow> string list" where
  "dump t x lo hi = map (\<lambda>line. t # CHR '' '' # line) (take (hi - lo) (drop lo x))"

fun compare_op :: "string list \<Rightarrow> string list \<Rightarrow> opcode \<Rightarrow> string list" where
  "compare_op a b (Replace, alo, ahi, blo, bhi) =
     (if bhi - blo < ahi - alo then dump (CHR ''+'') b blo bhi @ dump (CHR ''-'') a alo ahi
      else dump (CHR ''-'') a alo ahi @ dump (CHR ''+'') b blo bhi)"
| "compare_op a b (Delete, alo, ahi, blo, bhi) = dump (CHR ''-'') a alo ahi"
| "compare_op a b (Insert, alo, ahi, blo, bhi) = dump (CHR ''+'') b blo bhi"
| "compare_op a b (Equal, alo, ahi, blo, bhi) = dump (CHR '' '') a alo ahi"

definition ndiff :: "string list \<Rightarrow> string list \<Rightarrow> string list" where
  "ndiff a b = concat (map (compare_op a b) (get_opcodes a b))"

definition count_change_lines :: "string \<Rightarrow> string \<Rightarrow> int" where
  "count_change_lines old new =
     int (length (filter (\<lambda>d. d \<noteq> [] \<and> hd d \<in> set ''+-'')
                    (ndiff (splitlines old) (splitlines new))))"

section \<open>The patch applier\<close>

text \<open>
  A change is a JSON object with a \<open>path\<close> and an optional \<open>content\<close>; a patch may lack
  its \<open>changes\<close> list.
\<close>

record change =
  path :: string
  content :: "string option"

record patch =
  changes :: "change list option"

datatype reason = out_of_scope | not_found | max_change_lines_exceeded

text \<open>The dictionary that \<open>apply_changes\<close> returns.\<close>

record apply_result =
  applied :: "(string \<times> int) list"
  rejected :: "(string \<times> reason) list"
  total_changed :: int
  backups :: "string list"

text \<open>
  The local variables of \<open>apply_changes\<close> (\<open>changes_applied\<close>, \<open>backups\<close>, \<open>rejected\<close>,
  \<open>total_changed\<close>) together with the file system they act on.
\<close>

record apply_state =
  s_applied :: "(string \<times> int) list"
  s_backups :: "path list"
  s_rejected :: "(string \<times> reason) list"
  s_total :: int
  s_files :: fs

definition reject :: "string \<Rightarrow> reason \<Rightarrow> apply_state \<Rightarrow> apply_state" where
  "reject rel r st = st\<lparr>s_rejected := s_rejected st @ [(rel, r)]\<rparr>"

definition path_name :: "path \<Rightarrow> string" where
  "path_name p = (if p = [] then [] else last p)"

definition change_content :: "change \<Rightarrow> string" where
  "change_content c = (case content c of None \<Rightarrow> [] | Some t \<Rightarrow> t)"

text \<open>
  The body of the loop. The first component of the result is the exception that left
  the loop, if any; the second is the state at that moment: when the write of the target
  fails, the backup has been written and recorded already.
\<close>

definition apply_change ::
  "path \<Rightarrow> config \<Rightarrow> change \<Rightarrow> apply_state \<Rightarrow> error option \<times> apply_state" where
  "apply_change repo_root cfg c st =
     (let p = resolve (joinpath repo_root (path c))
      in case relative_to p repo_root of
           Inl e \<Rightarrow> (Some e, st)
         | Inr r \<Rightarrow>
             let rel = as_posix r
             in if \<not> within_scope rel cfg then (None, reject rel out_of_scope st)
                else case path_exists (s_files st) p of
                  Inl e \<Rightarrow> (Some e, st)
                | Inr found \<Rightarrow>
                    if \<not> found then (None, reject rel not_found st)
                    else case read_text (s_files st) p of
                      Inl e \<Rightarrow> (Some e, st)
                    | Inr old \<Rightarrow>
                        let new = change_content c;
                            changed = count_change_lines old new
                        in if s_total st + changed > cfg_max_change_lines cfg
                           then (None, reject rel max_change_lines_exceeded st)
                           else case with_suffix p (suffix_of (path_name p) @ ''.apr.bak'') of
                             Inl e \<Rightarrow> (Some e, st)
                           | Inr bak \<Rightarrow>
                               (case write_text (s_files st) bak old of
                                  Inl e \<Rightarrow> (Some e, st)
                                | Inr files1 \<Rightarrow>
                                    (case write_text files1 p new of
                                       Inl e \<Rightarrow>
                                         (Some e, st\<lparr>s_backups := s_backups st @ [bak],
                                                     s_files := files1\<rparr>)
                                     | Inr files2 \<Rightarrow>
                                         (None,
                                          st\<lparr>s_applied := s_applied st @ [(rel, changed)],
                                             s_backups := s_backups st @ [bak],
                                             s_total := s_total st + changed,
                                             s_files := files2\<rparr>))))"

fun apply_loop ::
  "path \<Rightarrow> config \<Rightarrow> change list \<Rightarrow> apply_state \<Rightarrow> error option \<times> apply_state" where
  "apply_loop repo_root cfg [] st = (None, st)"
| "apply_loop repo_root cfg (c # cs) st =
     (case apply_change repo_root cfg c st of
        (Some e, st') \<Rightarrow> (Some e, st')
      | (None, st') \<Rightarrow> apply_loop repo_root cfg cs st')"

fun backups_rel :: "path list \<Rightarrow> path \<Rightarrow> error + string list" where
  "backups_rel [] repo_root = Inr []"
| "backups_rel (b # bs) repo_root =
     (case relative_to b repo_root of
        Inl e \<Rightarrow> Inl e
      | Inr r \<Rightarrow>
          (case backups_rel bs repo_root of
             Inl e \<Rightarrow> Inl e
           | Inr rs \<Rightarrow> Inr (as_posix r # rs)))"

definition patch_changes :: "patch \<Rightarrow> change list" where
  "patch_changes p = (case changes p of None \<Rightarrow> [] | Some cs \<Rightarrow> cs)"

definition init_state :: "fs \<Rightarrow> apply_state" where
  "init_state files0 =
     \<lparr>s_applied = [], s_backups = [], s_rejected = [], s_total = 0, s_files = files0\<rparr>"

text \<open>
  \<open>apply_changes\<close> returns the result dictionary or raises; in both cases the file system
  is left as the loop left it.
\<close>

definition apply_changes ::
  "path \<Rightarrow> config \<Rightarrow> patch \<Rightarrow> fs \<Rightarrow> (error + apply_result) \<times> fs" where
  "apply_changes repo_root cfg p files0 =
     (case apply_loop repo_root cfg (patch_changes p) (init_state files0) of
        (Some e, st) \<Rightarrow> (Inl e, s_files st)
      | (None, st) \<Rightarrow>
          (case backups_rel (s_backups st) repo_root of
             Inl e \<Rightarrow> (Inl e, s_files st)
           | Inr bs \<Rightarrow>
               (Inr \<lparr>applied = s_applied st, rejected = s_rejected st,
                     total_changed = s_total st, backups = bs\<rparr>,
                s_files st)))"

section \<open>Rollback\<close>

text \<open>
  One backup entry: nothing happens when the backup does not exist; \<open>exists\<close> and
  \<open>with_suffix\<close> stand outside the \<open>try\<close> block, so their exceptions leave \<open>rollback\<close>; an
  exception of the copy or of the removal is swallowed, and what was done before it stays
  done.
\<close>

definition rollback_one :: "path \<Rightarrow> string \<Rightarrow> fs \<Rightarrow> error option \<times> fs" where
  "rollback_one repo_root b files0 =
     (let bak = resolve (joinpath repo_root b)
      in case path_exists files0 bak of
           Inl e \<Rightarrow> (Some e, files0)
         | Inr found \<Rightarrow>
             if found then
               (case with_suffix bak [] of
                  Inl e \<Rightarrow> (Some e, files0)
                | Inr orig \<Rightarrow>
                    (case read_text files0 bak of
                       Inl _ \<Rightarrow> (None, files0)
                     | Inr t \<Rightarrow>
                         (case write_text files0 orig t of
                            Inl _ \<Rightarrow> (None, files0)
                          | Inr files1 \<Rightarrow>
                              (case unlink files1 bak of
                                 Inl _ \<Rightarrow> (None, files1)
                               | Inr files2 \<Rightarrow> (None, files2)))))
             else (None, files0))"

fun rollback_loop :: "path \<Rightarrow> string list \<Rightarrow> fs \<Rightarrow> error option \<times> fs" where
  "rollback_loop repo_root [] files0 = (None, files0)"
| "rollback_loop repo_root (b # bs) files0 =
     (case rollback_one repo_root b files0 of
        (Some e, files1) \<Rightarrow> (Some e, files1)
      | (None, files1) \<Rightarrow> rollback_loop repo_root bs files1)"

definition rollback :: "path \<Rightarrow> apply_result \<Rightarrow> fs \<Rightarrow> error option \<times> fs" where
  "rollback repo_root result files0 = rollback_loop repo_root (backups result) files0"

section \<open>Notions used in the statements\<close>

text \<open>
  The repository-relative, normalised path that the loop computes for a change, where the
  resolved path lies under the repository root.
\<close>

definition rel_of :: "path \<Rightarrow> change \<Rightarrow> string option" where
  "rel_of repo_root c =
     (case relative_to (resolve (joinpath repo_root (path c))) repo_root of
        Inl _ \<Rightarrow> None
      | Inr r \<Rightarrow> Some (as_posix r))"

text \<open>The running total equals the sum over the applied entries and respects the budget.\<close>

definition budget_ok :: "config \<Rightarrow> apply_state \<Rightarrow> bool" where
  "budget_ok cfg st \<longleftrightarrow>
     s_total st = sum_list (map snd (s_applied st)) \<and> s_total st \<le> cfg_max_change_lines cfg"

text \<open>A backup path that, seen from the root, is the applied path plus the backup suffix.\<close>

definition backup_of :: "path \<Rightarrow> path \<Rightarrow> string \<times> int \<Rightarrow> bool" where
  "backup_of repo_root b e \<longleftrightarrow>
     (\<forall>r'. relative_to b repo_root = Inr r' \<longrightarrow> as_posix r' = fst e @ ''.apr.bak'')"

text \<open>A row of the match table of a sequence compared with itself, after \<open>m\<close> rows.\<close>

definition diag_row :: "nat \<Rightarrow> (nat \<Rightarrow> nat) \<Rightarrow> bool" where
  "diag_row m row \<longleftrightarrow> (0 < m \<longrightarrow> row (m - 1) = m) \<and> (\<forall>j. row j \<le> m \<and> row j \<le> Suc j)"

subsection \<open>Concrete inputs\<close>

text \<open>
  A repository \<open>/repo\<close> that holds one file \<open>a.txt\<close>, some configurations, and some patches;
  two texts of four lines each.
\<close>

definition demo_root :: path where
  "demo_root = [''repo'']"

definition demo_files :: fs where
  "demo_files = [[''repo''] \<mapsto> Dir, [''repo'', ''a.txt''] \<mapsto> File ''old'']"

text \<open>The same repository with \<open>a.txt\<close> write-protected.\<close>

definition locked_files :: fs where
  "locked_files = [[''repo''] \<mapsto> Dir, [''repo'', ''a.txt''] \<mapsto> ReadOnly ''old'']"

definition demo_cfg :: config where
  "demo_cfg = \<lparr>file_scopes = None, excludes = None, max_change_lines = None\<rparr>"

definition tight_cfg :: config where
  "tight_cfg = \<lparr>file_scopes = None, excludes = None, max_change_lines = Some 2\<rparr>"

definition md_cfg :: config where
  "md_cfg = \<lparr>file_scopes = None, excludes = Some [''*.md''], max_change_lines = None\<rparr>"

definition swift_cfg :: config where
  "swift_cfg = \<lparr>file_scopes = Some [''App/*.swift''], excludes = Some [''App/Gen*''],
     max_change_lines = None\<rparr>"

definition one_change :: patch where
  "one_change = \<lparr>changes = Some [\<lparr>path = ''a.txt'', content = Some ''new''\<rparr>]\<rparr>"

definition one_change_result :: apply_result where
  "one_change_result = \<lparr>applied = [(''a.txt'', 2)], rejected = [], total_changed = 2,
     backups = [''a.txt.apr.bak'']\<rparr>"

definition same_file_twice :: patch where
  "same_file_twice = \<lparr>changes = Some [\<lparr>path = ''a.txt'', content = Some ''b''\<rparr>,
     \<lparr>path = ''a.txt'', content = Some ''c''\<rparr>]\<rparr>"

definition twice_tight_result :: apply_result where
  "twice_tight_result = \<lparr>applied = [(''a.txt'', 2)],
     rejected = [(''a.txt'', max_change_lines_exceeded)], total_changed = 2,
     backups = [''a.txt.apr.bak'']\<rparr>"

definition escaping :: patch where
  "escaping = \<lparr>changes = Some [\<lparr>path = ''../x'', content = Some ''new''\<rparr>,
     \<lparr>path = ''a.txt'', content = Some ''new''\<rparr>]\<rparr>"

definition gone_txt :: change where
  "gone_txt = \<lparr>path = ''gone.txt'', content = Some ''x''\<rparr>"

definition tide :: string where
  "tide = [CHR ''t'', LF, CHR ''i'', LF, CHR ''d'', LF, CHR ''e'', LF]"

definition diet :: string where
  "diet = [CHR ''d'', LF, CHR ''i'', LF, CHR ''e'', LF, CHR ''t'', LF]"

definition one_change_pre :: "change list" where
  "one_change_pre = [\<lparr>path = ''a.txt'', content = Some ''new''\<rparr>]"

definition escaping_change :: change where
  "escaping_change = \<lparr>path = ''../x'', content = Some ''new''\<rparr>"

definition later_change :: change where
  "later_change = \<lparr>path = ''a.txt'', content = Some ''later''\<rparr>"

definition first_change :: change where
  "first_change = \<lparr>path = ''a.txt'', content = Some ''new''\<rparr>"


section \<open>Lemmas about the model\<close>

lemma new_row_diag:
  assumes "diag_row m row" and "m < length a"
  shows "diag_row (Suc m) (new_row a a 0 (length a) m row)"
proof -
  from assms(1) have d: "0 < m \<Longrightarrow> row (m - 1) = m"
    and b: "\<And>j. row j \<le> m" "\<And>j. row j \<le> Suc j"
    by (simp_all add: diag_row_def)
  have "new_row a a 0 (length a) m row m = Suc m"
    using assms(2) d by (cases "m = 0") (simp_all add: new_row_def)
  moreover have "new_row a a 0 (length a) m row j \<le> Suc m" for j
    using b(1) [of "j - 1"] by (simp add: new_row_def)
  moreover have "new_row a a 0 (length a) m row j \<le> Suc j" for j
    using b(2) [of "j - 1"] by (cases "j = 0") (simp_all add: new_row_def)
  ultimately show ?thesis by (simp add: diag_row_def)
qed

lemma scan_row_skip:
  "\<forall>j\<in>set js. row j \<le> bs \<Longrightarrow> scan_row row i js (bi, bj, bs) = (bi, bj, bs)"
  by (induction js) (simp_all add: Let_def)

lemma scan_row_append:
  "scan_row row i (xs @ ys) best = scan_row row i ys (scan_row row i xs best)"
proof (induction xs arbitrary: best)
  case Nil
  show ?case by simp
next
  case (Cons x xs)
  obtain bi bj bs where "best = (bi, bj, bs)" by (cases best)
  with Cons show ?case by (simp add: Let_def)
qed

lemma scan_row_diag:
  assumes "diag_row (Suc m) row" and "m < n"
  shows "scan_row row m [0..<n] (0, 0, m) = (0, 0, Suc m)"
proof -
  from assms(1) have d: "row m = Suc m" and b: "\<And>j. row j \<le> Suc m" "\<And>j. row j \<le> Suc j"
    by (simp_all add: diag_row_def)
  have below: "\<forall>j\<in>set [0..<m]. row j \<le> m"
  proof
    fix j assume "j \<in> set [0..<m]"
    then have "j < m" by simp
    with b(2) [of j] show "row j \<le> m" by simp
  qed
  have "[0..<n] = [0..<m] @ [m..<n]"
    using upt_add_eq_append [of 0 m "n - m"] assms(2) by simp
  also have "[m..<n] = m # [Suc m..<n]"
    using assms(2) by (rule upt_conv_Cons)
  finally have split: "[0..<n] = [0..<m] @ m # [Suc m..<n]" .
  have s1: "scan_row row m [0..<m] (0, 0, m) = (0, 0, m)"
    using below by (rule scan_row_skip)
  have s2: "scan_row row m (m # [Suc m..<n]) (0, 0, m)
      = scan_row row m [Suc m..<n] (0, 0, Suc m)"
    using d by (simp add: Let_def)
  have s3: "scan_row row m [Suc m..<n] (0, 0, Suc m) = (0, 0, Suc m)"
    by (rule scan_row_skip) (simp add: b(1))
  show ?thesis
    unfolding split scan_row_append s1 s2 s3 ..
qed

lemma lm_loop_diag:
  assumes "diag_row m row" and "m \<le> length a"
  shows "lm_loop a a 0 (length a) [m..<length a] row (0, 0, m) = (0, 0, length a)"
  using assms
proof (induction "length a - m" arbitrary: m row)
  case 0
  then show ?case by simp
next
  case (Suc k)
  then have lt: "m < length a" by simp
  let ?row = "new_row a a 0 (length a) m row"
  have d: "diag_row (Suc m) ?row"
    using Suc.prems(1) lt by (rule new_row_diag)
  have s: "scan_row ?row m [0..<length a] (0, 0, m) = (0, 0, Suc m)"
    using d lt by (rule scan_row_diag)
  from Suc.hyps(2) have "k = length a - Suc m" by simp
  from Suc.hyps(1) [OF this d] lt
  have "lm_loop a a 0 (length a) [Suc m..<length a] ?row (0, 0, Suc m) = (0, 0, length a)"
    by simp
  with s lt show ?case by (simp add: upt_conv_Cons Let_def)
qed

lemma find_longest_match_self:
  "find_longest_match a a 0 (length a) 0 (length a) = (0, 0, length a)"
proof -
  have "diag_row 0 (\<lambda>j. 0)" by (simp add: diag_row_def)
  then have "lm_loop a a 0 (length a) [0..<length a] (\<lambda>j. 0) (0, 0, 0) = (0, 0, length a)"
    by (rule lm_loop_diag) simp
  then show ?thesis
    by (simp add: find_longest_match_def extend_left.simps extend_right.simps)
qed

lemma mb_loop_self:
  "mb_loop a a [(0, length a, 0, length a)] [] = (if a = [] then [] else [(0, 0, length a)])"
  by (simp add: mb_loop.simps find_longest_match_self Let_def)

lemma get_opcodes_self:
  "get_opcodes a a = (if a = [] then [] else [(Equal, 0, length a, 0, length a)])"
  by (simp add: get_opcodes_def get_matching_blocks_def mb_loop_self)

lemma count_change_lines_self: "count_change_lines a a = 0"
  by (simp add: count_change_lines_def ndiff_def get_opcodes_self dump_def filter_map comp_def)

lemma write_text_Inr: "write_text files0 p t = Inr files1 \<Longrightarrow> files1 = files0(p \<mapsto> File t)"
  by (auto simp: write_text_def split: option.splits node.splits)

lemma apply_change_Some:
  assumes "apply_change repo_root cfg c st = (Some e, st')"
  shows "st' = st \<or>
     (\<exists>old bak.
        read_text (s_files st) (resolve (joinpath repo_root (path c))) = Inr old \<and>
        s_total st + count_change_lines old (change_content c) \<le> cfg_max_change_lines cfg \<and>
        with_suffix (resolve (joinpath repo_root (path c)))
          (suffix_of (path_name (resolve (joinpath repo_root (path c)))) @ ''.apr.bak'') = Inr bak \<and>
        st' = st\<lparr>s_backups := s_backups st @ [bak],
                  s_files := (s_files st)(bak \<mapsto> File old)\<rparr>)"
proof -
  let ?p = "resolve (joinpath repo_root (path c))"
  let ?sfx = "suffix_of (path_name ?p) @ ''.apr.bak''"
  show ?thesis
  proof (cases "relative_to ?p repo_root")
    case (Inl x)
    with assms show ?thesis by (simp add: apply_change_def Let_def)
  next
    case r: (Inr r)
    show ?thesis
    proof (cases "within_scope (as_posix r) cfg")
      case False
      with assms r show ?thesis by (simp add: apply_change_def Let_def)
    next
      case ws: True
      show ?thesis
      proof (cases "path_exists (s_files st) ?p")
        case (Inl x)
        with assms r ws show ?thesis by (simp add: apply_change_def Let_def)
      next
        case ex: (Inr found)
        show ?thesis
        proof (cases found)
          case False
          with assms r ws ex show ?thesis by (simp add: apply_change_def Let_def)
        next
          case found: True
          show ?thesis
          proof (cases "read_text (s_files st) ?p")
            case (Inl x)
            with assms r ws ex found show ?thesis by (simp add: apply_change_def Let_def)
          next
            case old: (Inr old)
            let ?n = "count_change_lines old (change_content c)"
            show ?thesis
            proof (cases "s_total st + ?n > cfg_max_change_lines cfg")
              case True
              with assms r ws ex found old show ?thesis
                by (simp add: apply_change_def Let_def)
            next
              case fits: False
              show ?thesis
              proof (cases "with_suffix ?p ?sfx")
                case (Inl x)
                with assms r ws ex found old fits show ?thesis
                  by (simp add: apply_change_def Let_def)
              next
                case bak: (Inr bak)
                show ?thesis
                proof (cases "write_text (s_files st) bak old")
                  case (Inl x)
                  with assms r ws ex found old fits bak show ?thesis
                    by (simp add: apply_change_def Let_def)
                next
                  case w: (Inr files1)
                  then have f1: "files1 = (s_files st)(bak \<mapsto> File old)"
                    by (rule write_text_Inr)
                  show ?thesis
                  proof (cases "write_text files1 ?p (change_content c)")
                    case (Inl x)
                    with assms r ws ex found old fits bak w
                    have "st' = st\<lparr>s_backups := s_backups st @ [bak], s_files := files1\<rparr>"
                      by (simp add: apply_change_def Let_def)
                    with f1 old fits bak show ?thesis by auto
                  next
                    case (Inr files2)
                    with assms r ws ex found old fits bak w show ?thesis
                      by (simp add: apply_change_def Let_def)
                  qed
                qed
              qed
            qed
          qed
        qed
      qed
    qed
  qed
qed

lemma apply_change_None:
  assumes "apply_change repo_root cfg c st = (None, st')"
  shows "\<exists>r. relative_to (resolve (joinpath repo_root (path c))) repo_root = Inr r \<and>
     ((\<exists>rsn. st' = reject (as_posix r) rsn st) \<or>
      (\<exists>old bak.
         within_scope (as_posix r) cfg \<and>
         read_text (s_files st) (resolve (joinpath repo_root (path c))) = Inr old \<and>
         s_total st + count_change_lines old (change_content c) \<le> cfg_max_change_lines cfg \<and>
         with_suffix (resolve (joinpath repo_root (path c)))
           (suffix_of (path_name (resolve (joinpath repo_root (path c)))) @ ''.apr.bak'') = Inr bak \<and>
         st' = st\<lparr>s_applied := s_applied st
                       @ [(as_posix r, count_change_lines old (change_content c))],
                   s_backups := s_backups st @ [bak],
                   s_total := s_total st + count_change_lines old (change_content c),
                   s_files := (s_files st)(bak \<mapsto> File old,
                      resolve (joinpath repo_root (path c)) \<mapsto> File (change_content c))\<rparr>))"
proof -
  let ?p = "resolve (joinpath repo_root (path c))"
  from assms obtain r where r: "relative_to ?p repo_root = Inr r"
    by (auto simp: apply_change_def Let_def split: sum.splits)
  show ?thesis
  proof (cases "within_scope (as_posix r) cfg")
    case False
    with assms r have "st' = reject (as_posix r) out_of_scope st"
      by (simp add: apply_change_def Let_def)
    with r show ?thesis by blast
  next
    case ws: True
    with assms r obtain found where ex: "path_exists (s_files st) ?p = Inr found"
      by (auto simp: apply_change_def Let_def split: sum.splits)
    show ?thesis
    proof (cases found)
      case False
      with assms r ws ex have "st' = reject (as_posix r) not_found st"
        by (simp add: apply_change_def Let_def)
      with r show ?thesis by blast
    next
      case found: True
      with assms r ws ex obtain old where old: "read_text (s_files st) ?p = Inr old"
        by (auto simp: apply_change_def Let_def split: sum.splits)
      let ?n = "count_change_lines old (change_content c)"
      show ?thesis
      proof (cases "s_total st + ?n > cfg_max_change_lines cfg")
        case over: True
        with assms r ws ex found old
        have "st' = reject (as_posix r) max_change_lines_exceeded st"
          by (simp add: apply_change_def Let_def)
        with r show ?thesis by blast
      next
        case fits: False
        with assms r ws ex found old obtain bak where
          bak: "with_suffix ?p (suffix_of (path_name ?p) @ ''.apr.bak'') = Inr bak"
          by (auto simp: apply_change_def Let_def split: sum.splits)
        from assms r ws ex found old fits bak obtain files1 where
          w: "write_text (s_files st) bak old = Inr files1"
          by (auto simp: apply_change_def Let_def split: sum.splits)
        then have f1: "files1 = (s_files st)(bak \<mapsto> File old)" by (rule write_text_Inr)
        from assms r ws ex found old fits bak w obtain files2 where
          w2: "write_text files1 ?p (change_content c) = Inr files2"
          by (auto simp: apply_change_def Let_def split: sum.splits)
        then have f2: "files2 = files1(?p \<mapsto> File (change_content c))"
          by (rule write_text_Inr)
        from assms r ws ex found old fits bak w w2
        have "st' = st\<lparr>s_applied := s_applied st @ [(as_posix r, ?n)],
                     s_backups := s_backups st @ [bak],
                     s_total := s_total st + ?n,
                     s_files := files2\<rparr>"
          by (simp add: apply_change_def Let_def)
        with f1 f2
        have "st' = st\<lparr>s_applied := s_applied st @ [(as_posix r, ?n)],
                     s_backups := s_backups st @ [bak],
                     s_total := s_total st + ?n,
                     s_files := (s_files st)(bak \<mapsto> File old, ?p \<mapsto> File (change_content c))\<rparr>"
          by simp
        with r ws old fits bak show ?thesis by auto
      qed
    qed
  qed
qed

lemma apply_change_NoneE [consumes 1, case_names rejected applied]:
  assumes "apply_change repo_root cfg c st = (None, st')"
  obtains (rejected) r rsn where
      "relative_to (resolve (joinpath repo_root (path c))) repo_root = Inr r"
      "st' = reject (as_posix r) rsn st"
    | (applied) r old bak where
      "relative_to (resolve (joinpath repo_root (path c))) repo_root = Inr r"
      "within_scope (as_posix r) cfg"
      "read_text (s_files st) (resolve (joinpath repo_root (path c))) = Inr old"
      "s_total st + count_change_lines old (change_content c) \<le> cfg_max_change_lines cfg"
      "with_suffix (resolve (joinpath repo_root (path c)))
         (suffix_of (path_name (resolve (joinpath repo_root (path c)))) @ ''.apr.bak'') = Inr bak"
      "st' = st\<lparr>s_applied := s_applied st
                    @ [(as_posix r, count_change_lines old (change_content c))],
                s_backups := s_backups st @ [bak],
                s_total := s_total st + count_change_lines old (change_content c),
                s_files := (s_files st)(bak \<mapsto> File old,
                   resolve (joinpath repo_root (path c)) \<mapsto> File (change_content c))\<rparr>"
  using apply_change_None [OF assms] by blast

lemma apply_change_SomeE [consumes 1, case_names unchanged backed_up]:
  assumes "apply_change repo_root cfg c st = (Some e, st')"
  obtains (unchanged) "st' = st"
    | (backed_up) old bak where
      "read_text (s_files st) (resolve (joinpath repo_root (path c))) = Inr old"
      "s_total st + count_change_lines old (change_content c) \<le> cfg_max_change_lines cfg"
      "with_suffix (resolve (joinpath repo_root (path c)))
         (suffix_of (path_name (resolve (joinpath repo_root (path c)))) @ ''.apr.bak'') = Inr bak"
      "st' = st\<lparr>s_backups := s_backups st @ [bak],
                s_files := (s_files st)(bak \<mapsto> File old)\<rparr>"
  using apply_change_Some [OF assms] by blast

lemma apply_loop_invariant:
  assumes "apply_loop repo_root cfg cs st = (e, st')" and "I st"
    and step: "\<And>c s eo s'. I s \<Longrightarrow> apply_change repo_root cfg c s = (eo, s') \<Longrightarrow> I s'"
  shows "I st'"
  using assms(1,2)
proof (induction cs arbitrary: st)
  case Nil
  then show ?case by simp
next
  case (Cons c cs)
  obtain eo st1 where s: "apply_change repo_root cfg c st = (eo, st1)"
    by (cases "apply_change repo_root cfg c st")
  from Cons.prems(2) s have i1: "I st1" by (rule step)
  show ?case
  proof (cases eo)
    case None
    with s Cons.prems(1) have "apply_loop repo_root cfg cs st1 = (e, st')" by simp
    then show ?thesis using i1 by (rule Cons.IH)
  next
    case (Some x)
    with s Cons.prems(1) have "st' = st1" by simp
    with i1 show ?thesis by simp
  qed
qed

lemma apply_loop_None_invariant:
  assumes "apply_loop repo_root cfg cs st = (None, st')" and "I st"
    and step: "\<And>c s s'. I s \<Longrightarrow> apply_change repo_root cfg c s = (None, s') \<Longrightarrow> I s'"
  shows "I st'"
  using assms(1,2)
proof (induction cs arbitrary: st)
  case Nil
  then show ?case by simp
next
  case (Cons c cs)
  obtain eo st1 where s: "apply_change repo_root cfg c st = (eo, st1)"
    by (cases "apply_change repo_root cfg c st")
  with Cons.prems(1) have eo: "eo = None" and rest: "apply_loop repo_root cfg cs st1 = (None, st')"
    by (auto split: option.splits)
  from Cons.prems(2) s [unfolded eo] have "I st1" by (rule step)
  with rest show ?case by (rule Cons.IH)
qed

lemma apply_loop_append:
  "apply_loop repo_root cfg pre st = (None, st') \<Longrightarrow>
   apply_loop repo_root cfg (pre @ rest) st = apply_loop repo_root cfg rest st'"
  by (induction pre arbitrary: st) (auto split: prod.splits option.splits)

lemma apply_changes_Inr:
  assumes "apply_changes repo_root cfg p files0 = (Inr res, files1)"
  shows "\<exists>st. apply_loop repo_root cfg (patch_changes p) (init_state files0) = (None, st)
     \<and> backups_rel (s_backups st) repo_root = Inr (backups res)
     \<and> applied res = s_applied st \<and> rejected res = s_rejected st
     \<and> total_changed res = s_total st \<and> files1 = s_files st"
  using assms unfolding apply_changes_def
  by (auto split: prod.splits option.splits sum.splits)

lemma budget_ok_step:
  assumes "budget_ok cfg st" and "apply_change repo_root cfg c st = (eo, st')"
  shows "budget_ok cfg st'"
proof (cases eo)
  case None
  with assms(2) have "apply_change repo_root cfg c st = (None, st')" by simp
  then show ?thesis
  proof (cases rule: apply_change_NoneE)
    case (rejected r rsn)
    with assms(1) show ?thesis by (simp add: budget_ok_def reject_def)
  next
    case (applied r old bak)
    with assms(1) show ?thesis by (simp add: budget_ok_def)
  qed
next
  case (Some x)
  with assms(2) have "apply_change repo_root cfg c st = (Some x, st')" by simp
  then show ?thesis
  proof (cases rule: apply_change_SomeE)
    case unchanged
    with assms(1) show ?thesis by simp
  next
    case (backed_up old bak)
    with assms(1) show ?thesis by (simp add: budget_ok_def)
  qed
qed

lemma budget_ok_loop:
  assumes "apply_loop repo_root cfg cs st = (e, st')" and "budget_ok cfg st"
  shows "budget_ok cfg st'"
  using assms(1,2) budget_ok_step by (rule apply_loop_invariant)

lemma apply_loop_partition:
  "apply_loop repo_root cfg cs st = (None, st') \<Longrightarrow>
   \<exists>rels. map (rel_of repo_root) cs = map Some rels \<and>
     mset (map fst (s_applied st')) + mset (map fst (s_rejected st'))
       = mset (map fst (s_applied st)) + mset (map fst (s_rejected st)) + mset rels"
proof (induction cs arbitrary: st)
  case Nil
  then show ?case by simp
next
  case (Cons c cs)
  obtain eo st1 where s: "apply_change repo_root cfg c st = (eo, st1)"
    by (cases "apply_change repo_root cfg c st")
  with Cons.prems have eo: "eo = None" and rest: "apply_loop repo_root cfg cs st1 = (None, st')"
    by (auto split: option.splits)
  from apply_change_None [OF s [unfolded eo]] obtain r where
    r: "relative_to (resolve (joinpath repo_root (path c))) repo_root = Inr r"
    and one: "mset (map fst (s_applied st1)) + mset (map fst (s_rejected st1))
       = mset (map fst (s_applied st)) + mset (map fst (s_rejected st)) + {#as_posix r#}"
    by (auto simp: reject_def)
  from Cons.IH [OF rest] obtain rels where
    rels: "map (rel_of repo_root) cs = map Some rels"
    and m: "mset (map fst (s_applied st')) + mset (map fst (s_rejected st'))
       = mset (map fst (s_applied st1)) + mset (map fst (s_rejected st1)) + mset rels"
    by blast
  from r rels have "map (rel_of repo_root) (c # cs) = map Some (as_posix r # rels)"
    by (simp add: rel_of_def)
  moreover from m one have "mset (map fst (s_applied st')) + mset (map fst (s_rejected st'))
       = mset (map fst (s_applied st)) + mset (map fst (s_rejected st)) + mset (as_posix r # rels)"
    by simp
  ultimately show ?case by blast
qed

lemma suffix_of_drop: "suffix_of name = [] \<or> (\<exists>i<length name. suffix_of name = drop i name)"
proof (cases "rfind_dot name")
  case None
  then show ?thesis by (simp add: suffix_of_def)
next
  case (Some i)
  show ?thesis
  proof (cases "0 < i \<and> i < length name - 1")
    case True
    with Some have "suffix_of name = drop i name" and "i < length name"
      by (auto simp: suffix_of_def)
    then show ?thesis by blast
  next
    case False
    with Some show ?thesis by (auto simp: suffix_of_def)
  qed
qed

lemma take_suffix: "take (length name - length (suffix_of name)) name @ suffix_of name = name"
  using suffix_of_drop [of name] by auto

lemma with_suffix_bak:
  assumes "with_suffix p (suffix_of (path_name p) @ s) = Inr bak"
  shows "p \<noteq> []" and "bak = butlast p @ [last p @ s]"
proof -
  from assms show ne: "p \<noteq> []" by (auto simp: with_suffix_def split: if_splits)
  then have n: "path_name p = last p" by (simp add: path_name_def)
  have "take (length (last p) - length (suffix_of (last p))) (last p) @ suffix_of (last p) @ s
      = last p @ s"
    using take_suffix [of "last p"] by (metis append_assoc)
  with assms n show "bak = butlast p @ [last p @ s]"
    by (auto simp: with_suffix_def Let_def split: if_splits)
qed

lemma with_suffix_neq:
  assumes "with_suffix p (suffix_of (path_name p) @ s) = Inr bak" and "s \<noteq> []"
  shows "bak \<noteq> p"
proof
  assume "bak = p"
  with with_suffix_bak [OF assms(1)] have "p \<noteq> []" and "butlast p @ [last p @ s] = p"
    by simp_all
  then have "last p @ s = last p" by (metis last_snoc)
  with assms(2) show False by simp
qed

lemma join_slash_Cons: "xs \<noteq> [] \<Longrightarrow> join_slash (p # xs) = p @ ''/'' @ join_slash xs"
  by (cases xs) simp_all

lemma join_slash_snoc: "r \<noteq> [] \<Longrightarrow> join_slash (butlast r @ [last r @ s]) = join_slash r @ s"
proof (induction r)
  case Nil
  then show ?case by simp
next
  case (Cons p r)
  show ?case
  proof (cases "r = []")
    case True
    then show ?thesis by simp
  next
    case False
    with Cons.IH have "join_slash (butlast r @ [last r @ s]) = join_slash r @ s" by simp
    with False show ?thesis by (simp add: join_slash_Cons)
  qed
qed

lemma backup_rel:
  assumes p: "relative_to p repo_root = Inr r"
    and bak: "with_suffix p (suffix_of (path_name p) @ s) = Inr bak"
    and b: "relative_to bak repo_root = Inr r'"
    and s: "s \<noteq> []"
  shows "as_posix r' = as_posix r @ s"
proof -
  from p have pr: "p = repo_root @ r"
    by (auto simp: relative_to_def split: if_splits) (metis append_take_drop_id)
  from with_suffix_bak [OF bak] have ne: "p \<noteq> []" and bk: "bak = butlast p @ [last p @ s]"
    by simp_all
  show ?thesis
  proof (cases "r = []")
    case True
    with pr ne bk have "bak = butlast repo_root @ [last repo_root @ s]" and "repo_root \<noteq> []"
      by simp_all
    then have bb: "bak = butlast repo_root @ [last repo_root @ s]"
      and rn: "repo_root \<noteq> []" and len: "length bak = length repo_root"
      by simp_all
    from b have t: "take (length repo_root) bak = repo_root"
      by (auto simp: relative_to_def split: if_splits)
    have "bak = repo_root" using t len by (metis order_refl take_all)
    with bb have "butlast repo_root @ [last repo_root @ s] = repo_root" by metis
    then have "last repo_root @ s = last repo_root" by (metis last_snoc)
    with s show ?thesis by simp
  next
    case False
    with pr bk have "bak = repo_root @ (butlast r @ [last r @ s])"
      by (simp add: butlast_append)
    with b have "r' = butlast r @ [last r @ s]"
      by (auto simp: relative_to_def split: if_splits)
    with False show ?thesis by (simp add: as_posix_def join_slash_snoc)
  qed
qed

lemma backups_rel_map:
  "list_all2 (backup_of repo_root) bs es \<Longrightarrow> backups_rel bs repo_root = Inr rs \<Longrightarrow>
   rs = map (\<lambda>(rel, n). rel @ ''.apr.bak'') es"
proof (induction arbitrary: rs rule: list_all2_induct)
  case Nil
  then show ?case by simp
next
  case (Cons b bs e es)
  then show ?case
    by (auto simp: backup_of_def split: sum.splits prod.splits)
qed

lemma backups_step:
  assumes "list_all2 (backup_of repo_root) (s_backups st) (s_applied st)"
    and "apply_change repo_root cfg c st = (None, st')"
  shows "list_all2 (backup_of repo_root) (s_backups st') (s_applied st')"
  using assms(2)
proof (cases rule: apply_change_NoneE)
  case (rejected r rsn)
  with assms(1) show ?thesis by (simp add: reject_def)
next
  case (applied r old bak)
  have "backup_of repo_root bak (as_posix r, count_change_lines old (change_content c))"
    unfolding backup_of_def using backup_rel [OF applied(1) applied(5)] by simp
  with assms(1) applied(6) show ?thesis
    by (simp add: list_all2_appendI)
qed

lemma backups_loop:
  assumes "apply_loop repo_root cfg cs st = (None, st')"
    and "list_all2 (backup_of repo_root) (s_backups st) (s_applied st)"
  shows "list_all2 (backup_of repo_root) (s_backups st') (s_applied st')"
  using assms(1,2) backups_step by (rule apply_loop_None_invariant)

lemma apply_changes_backups:
  assumes "apply_changes repo_root cfg p files0 = (Inr res, files1)"
  shows "backups res = map (\<lambda>(rel, n). rel @ ''.apr.bak'') (applied res)"
proof -
  from apply_changes_Inr [OF assms] obtain st where
    l: "apply_loop repo_root cfg (patch_changes p) (init_state files0) = (None, st)"
    and b: "backups_rel (s_backups st) repo_root = Inr (backups res)"
    and a: "applied res = s_applied st"
    by blast
  have "list_all2 (backup_of repo_root) (s_backups (init_state files0)) (s_applied (init_state files0))"
    by (simp add: init_state_def)
  with l have "list_all2 (backup_of repo_root) (s_backups st) (s_applied st)"
    by (rule backups_loop)
  from backups_rel_map [OF this b] a show ?thesis by simp
qed

lemma rollback_loop_absent:
  "\<forall>b\<in>set bs. path_exists files0 (resolve (joinpath repo_root b)) = Inr False \<Longrightarrow>
   rollback_loop repo_root bs files0 = (None, files0)"
  by (induction bs) (simp_all add: rollback_one_def Let_def)

lemma pair_of_fst: "fst x = a \<Longrightarrow> x = (a, snd x)"
  by (cases x) simp

lemma apply_one_change:
  "fst (apply_changes demo_root demo_cfg one_change demo_files) = Inr one_change_result"
  by code_simp

lemma apply_twice_tight:
  "fst (apply_changes demo_root tight_cfg same_file_twice demo_files) = Inr twice_tight_result"
  by code_simp

text \<open>
  The backup is written before the target. When the target is write-protected, the second
  write raises: \<open>apply_changes\<close> is left by \<open>PermissionError\<close>, the target is as it was,
  and the backup stays behind.
\<close>
lemma failed_write_leaves_backup:
  "fst (apply_changes demo_root demo_cfg one_change locked_files) = Inl PermissionError
   \<and> snd (apply_changes demo_root demo_cfg one_change locked_files) [''repo'', ''a.txt'']
       = Some (ReadOnly ''old'')
   \<and> snd (apply_changes demo_root demo_cfg one_change locked_files) [''repo'', ''a.txt.apr.bak'']
       = Some (File ''old'')"
proof -
  have "fst (apply_changes demo_root demo_cfg one_change locked_files) = Inl PermissionError"
    by code_simp
  moreover have "snd (apply_changes demo_root demo_cfg one_change locked_files)
      [''repo'', ''a.txt''] = Some (ReadOnly ''old'')"
    by code_simp
  moreover have "snd (apply_changes demo_root demo_cfg one_change locked_files)
      [''repo'', ''a.txt.apr.bak''] = Some (File ''old'')"
    by code_simp
  ultimately show ?thesis by simp
qed

section \<open>The claims\<close>

subsection \<open>C7: the diff sizer\<close>

text \<open>
  C7, as amended. For all texts \<open>a\<close> and \<open>b\<close>, \<open>count_change_lines a a\<close> is 0 and
  \<open>count_change_lines a b\<close> is a non-negative integer. (Symmetry is not part of the
  statement: the matcher of \<open>difflib\<close> favours the earliest longest block of its first
  argument, and the two orders of the arguments can give different counts.)
\<close>
theorem count_change_lines_identity:
  "count_change_lines a a = 0 \<and> 0 \<le> count_change_lines a b"
  by (simp add: count_change_lines_self) (simp add: count_change_lines_def)

theorem count_change_lines_identity_witness:
  "count_change_lines tide tide = 0 \<and> 0 \<le> count_change_lines tide diet"
  using count_change_lines_identity [of tide diet] by simp

text \<open>
  The claim as stated fails: the lines \<open>t, i, d, e\<close> against \<open>d, i, e, t\<close> give 6 changed
  lines, and 4 in the other order.
\<close>
theorem count_change_lines_asymmetric:
  "count_change_lines tide diet = 6 \<and> count_change_lines diet tide = 4"
proof -
  have "count_change_lines tide diet = 6" by code_simp
  moreover have "count_change_lines diet tide = 4" by code_simp
  ultimately show ?thesis by simp
qed

subsection \<open>C6: scope precedence\<close>

text \<open>
  C6. For every relative path and configuration, \<open>within_scope\<close> is false whenever the
  path matches an exclude pattern, whatever the include patterns are, and the loop then
  rejects the change with \<open>out_of_scope\<close> and touches nothing else; and \<open>within_scope\<close> is
  true for every path when there are no include patterns and no exclude pattern matches.
\<close>
theorem exclusion_is_absolute:
  "((\<exists>ex\<in>set (cfg_excludes cfg). fnmatch rel ex) \<longrightarrow> \<not> within_scope rel cfg)
   \<and> (cfg_file_scopes cfg = [] \<and> (\<forall>ex\<in>set (cfg_excludes cfg). \<not> fnmatch rel ex)
        \<longrightarrow> within_scope rel cfg)
   \<and> (\<forall>r. relative_to (resolve (joinpath repo_root (path c))) repo_root = Inr r
          \<and> (\<exists>ex\<in>set (cfg_excludes cfg). fnmatch (as_posix r) ex)
        \<longrightarrow> apply_change repo_root cfg c st
             = (None, st\<lparr>s_rejected := s_rejected st @ [(as_posix r, out_of_scope)]\<rparr>))"
  by (auto simp: within_scope_def list_ex_iff apply_change_def Let_def reject_def)

theorem exclusion_is_absolute_witness:
  "fnmatch ''App/Gen.swift'' ''App/*.swift'' \<and> fnmatch ''App/Gen.swift'' ''App/Gen*''
   \<and> \<not> within_scope ''App/Gen.swift'' swift_cfg \<and> within_scope ''README'' md_cfg"
proof -
  have a: "fnmatch ''App/Gen.swift'' ''App/*.swift''" by code_simp
  have b: "fnmatch ''App/Gen.swift'' ''App/Gen*''" by code_simp
  have ex: "\<exists>ex\<in>set (cfg_excludes swift_cfg). fnmatch ''App/Gen.swift'' ex" by code_simp
  have n1: "cfg_file_scopes md_cfg = []" by code_simp
  have n2: "\<forall>ex\<in>set (cfg_excludes md_cfg). \<not> fnmatch ''README'' ex" by code_simp
  from exclusion_is_absolute [of swift_cfg "''App/Gen.swift''" demo_root gone_txt "init_state demo_files"] ex
  have c: "\<not> within_scope ''App/Gen.swift'' swift_cfg" by blast
  from exclusion_is_absolute [of md_cfg "''README''" demo_root gone_txt "init_state demo_files"] n1 n2
  have d: "within_scope ''README'' md_cfg" by blast
  from a b c d show ?thesis by simp
qed

subsection \<open>C10: the backups list\<close>

text \<open>
  C10. Whenever \<open>apply_changes\<close> returns, its \<open>backups\<close> list has one entry for each
  \<open>applied\<close> entry, in the same order, and each is the applied path followed by
  \<open>.apr.bak\<close>; a patch without changes, or with an empty list of changes, gives the empty
  result and leaves the files as they are.
\<close>
theorem backups_follow_applied:
  "(\<forall>res files1. apply_changes repo_root cfg p files0 = (Inr res, files1) \<longrightarrow>
       backups res = map (\<lambda>(rel, n). rel @ ''.apr.bak'') (applied res))
   \<and> apply_changes repo_root cfg \<lparr>changes = None\<rparr> files0
       = (Inr \<lparr>applied = [], rejected = [], total_changed = 0, backups = []\<rparr>, files0)
   \<and> apply_changes repo_root cfg \<lparr>changes = Some []\<rparr> files0
       = (Inr \<lparr>applied = [], rejected = [], total_changed = 0, backups = []\<rparr>, files0)"
  by (simp add: apply_changes_backups) (simp add: apply_changes_def patch_changes_def init_state_def)

theorem backups_follow_applied_witness:
  "fst (apply_changes demo_root demo_cfg one_change demo_files) = Inr one_change_result
   \<and> backups one_change_result = map (\<lambda>(rel, n). rel @ ''.apr.bak'') (applied one_change_result)"
  using backups_follow_applied [of demo_root demo_cfg one_change demo_files]
    pair_of_fst [OF apply_one_change] apply_one_change
  by blast

subsection \<open>C4: the budget\<close>

text \<open>
  C4. Let the budget \<open>max_change_lines\<close> be non-negative, as the data model requires.
  After every prefix of the changes, whether the loop went on or was left by an
  exception, and in the returned result, the running total is the sum of the changed
  lines of the applied entries and does not exceed the budget. A step that changes a
  file has read its target and passed the budget check with the new total: when it
  completes, it adds that number to the total together with one applied entry, and when
  one of its writes raises, the total and the applied entries are as they were. A step
  that rejects a change leaves the total, the applied entries and the files as they were.
\<close>
theorem budget_invariant:
  assumes "0 \<le> cfg_max_change_lines cfg"
  shows "(\<forall>n e st. apply_loop repo_root cfg (take n (patch_changes p)) (init_state files0) = (e, st)
            \<longrightarrow> s_total st = sum_list (map snd (s_applied st))
                \<and> s_total st \<le> cfg_max_change_lines cfg)
       \<and> (\<forall>res files1. apply_changes repo_root cfg p files0 = (Inr res, files1)
            \<longrightarrow> total_changed res = sum_list (map snd (applied res))
                \<and> total_changed res \<le> cfg_max_change_lines cfg)
       \<and> (\<forall>c st e st'. apply_change repo_root cfg c st = (e, st') \<and> s_files st' \<noteq> s_files st
            \<longrightarrow> (\<exists>old. read_text (s_files st) (resolve (joinpath repo_root (path c))) = Inr old
                   \<and> s_total st + count_change_lines old (change_content c)
                       \<le> cfg_max_change_lines cfg
                   \<and> (e = None \<longrightarrow>
                        (\<exists>rel. s_applied st' = s_applied st
                             @ [(rel, count_change_lines old (change_content c))])
                        \<and> s_total st' = s_total st + count_change_lines old (change_content c))
                   \<and> (e \<noteq> None \<longrightarrow>
                        s_applied st' = s_applied st \<and> s_total st' = s_total st)))
       \<and> (\<forall>c st st'. apply_change repo_root cfg c st = (None, st')
              \<and> s_rejected st' \<noteq> s_rejected st
            \<longrightarrow> s_total st' = s_total st \<and> s_applied st' = s_applied st
                \<and> s_files st' = s_files st)"
proof -
  from assms have init: "budget_ok cfg (init_state files0)"
    by (simp add: budget_ok_def init_state_def)
  have p1: "\<forall>n e st. apply_loop repo_root cfg (take n (patch_changes p)) (init_state files0) = (e, st)
            \<longrightarrow> s_total st = sum_list (map snd (s_applied st))
                \<and> s_total st \<le> cfg_max_change_lines cfg"
  proof (intro allI impI)
    fix n e st
    assume "apply_loop repo_root cfg (take n (patch_changes p)) (init_state files0) = (e, st)"
    from budget_ok_loop [OF this init]
    show "s_total st = sum_list (map snd (s_applied st)) \<and> s_total st \<le> cfg_max_change_lines cfg"
      by (simp add: budget_ok_def)
  qed
  have p2: "\<forall>res files1. apply_changes repo_root cfg p files0 = (Inr res, files1)
            \<longrightarrow> total_changed res = sum_list (map snd (applied res))
                \<and> total_changed res \<le> cfg_max_change_lines cfg"
  proof (intro allI impI)
    fix res files1
    assume "apply_changes repo_root cfg p files0 = (Inr res, files1)"
    from apply_changes_Inr [OF this] obtain st where
      l: "apply_loop repo_root cfg (patch_changes p) (init_state files0) = (None, st)"
      and eq: "applied res = s_applied st" "total_changed res = s_total st"
      by blast
    from budget_ok_loop [OF l init] eq
    show "total_changed res = sum_list (map snd (applied res))
        \<and> total_changed res \<le> cfg_max_change_lines cfg"
      by (simp add: budget_ok_def)
  qed
  have p3: "\<forall>c st e st'. apply_change repo_root cfg c st = (e, st') \<and> s_files st' \<noteq> s_files st
            \<longrightarrow> (\<exists>old. read_text (s_files st) (resolve (joinpath repo_root (path c))) = Inr old
                   \<and> s_total st + count_change_lines old (change_content c)
                       \<le> cfg_max_change_lines cfg
                   \<and> (e = None \<longrightarrow>
                        (\<exists>rel. s_applied st' = s_applied st
                             @ [(rel, count_change_lines old (change_content c))])
                        \<and> s_total st' = s_total st + count_change_lines old (change_content c))
                   \<and> (e \<noteq> None \<longrightarrow>
                        s_applied st' = s_applied st \<and> s_total st' = s_total st))"
  proof (intro allI impI, elim conjE)
    fix c st e st'
    assume s: "apply_change repo_root cfg c st = (e, st')" and ne: "s_files st' \<noteq> s_files st"
    show "\<exists>old. read_text (s_files st) (resolve (joinpath repo_root (path c))) = Inr old
                   \<and> s_total st + count_change_lines old (change_content c)
                       \<le> cfg_max_change_lines cfg
                   \<and> (e = None \<longrightarrow>
                        (\<exists>rel. s_applied st' = s_applied st
                             @ [(rel, count_change_lines old (change_content c))])
                        \<and> s_total st' = s_total st + count_change_lines old (change_content c))
                   \<and> (e \<noteq> None \<longrightarrow>
                        s_applied st' = s_applied st \<and> s_total st' = s_total st)"
    proof (cases e)
      case None
      with s have "apply_change repo_root cfg c st = (None, st')" by simp
      then show ?thesis
      proof (cases rule: apply_change_NoneE)
        case (rejected r rsn)
        with ne show ?thesis by (simp add: reject_def)
      next
        case (applied r old bak)
        with None show ?thesis by simp
      qed
    next
      case (Some x)
      with s have "apply_change repo_root cfg c st = (Some x, st')" by simp
      then show ?thesis
      proof (cases rule: apply_change_SomeE)
        case unchanged
        with ne show ?thesis by simp
      next
        case (backed_up old bak)
        with Some show ?thesis by simp
      qed
    qed
  qed
  have p4: "\<forall>c st st'. apply_change repo_root cfg c st = (None, st')
              \<and> s_rejected st' \<noteq> s_rejected st
            \<longrightarrow> s_total st' = s_total st \<and> s_applied st' = s_applied st
                \<and> s_files st' = s_files st"
  proof (intro allI impI, elim conjE)
    fix c st st'
    assume s: "apply_change repo_root cfg c st = (None, st')"
      and ne: "s_rejected st' \<noteq> s_rejected st"
    from s show "s_total st' = s_total st \<and> s_applied st' = s_applied st
                \<and> s_files st' = s_files st"
    proof (cases rule: apply_change_NoneE)
      case (rejected r rsn)
      then show ?thesis by (simp add: reject_def)
    next
      case (applied r old bak)
      with ne show ?thesis by simp
    qed
  qed
  from p1 p2 p3 p4 show ?thesis by (intro conjI)
qed

theorem budget_invariant_witness:
  "0 \<le> cfg_max_change_lines tight_cfg
   \<and> fst (apply_changes demo_root tight_cfg same_file_twice demo_files) = Inr twice_tight_result
   \<and> total_changed twice_tight_result = sum_list (map snd (applied twice_tight_result))
   \<and> total_changed twice_tight_result \<le> cfg_max_change_lines tight_cfg"
proof -
  have h: "0 \<le> cfg_max_change_lines tight_cfg" by code_simp
  from budget_invariant [OF h, of demo_root same_file_twice demo_files,
      THEN conjunct2, THEN conjunct1, rule_format, OF pair_of_fst [OF apply_twice_tight]]
  have "total_changed twice_tight_result = sum_list (map snd (applied twice_tight_result))
      \<and> total_changed twice_tight_result \<le> cfg_max_change_lines tight_cfg" .
  with h apply_twice_tight show ?thesis by simp
qed

subsection \<open>C3: one outcome for each change\<close>

text \<open>
  C3, as amended. Whenever \<open>apply_changes\<close> returns, every change of the patch has
  produced exactly one entry, of its normalised path, in exactly one of the lists
  \<open>applied\<close> and \<open>rejected\<close>: the paths of the two lists together are the paths of the
  changes, with multiplicity. When the changes name pairwise different paths, each path
  is in exactly one of the two lists.
\<close>
theorem each_change_one_outcome:
  assumes "apply_changes repo_root cfg p files0 = (Inr res, files1)"
  shows "\<exists>rels. map (rel_of repo_root) (patch_changes p) = map Some rels
     \<and> mset (map fst (applied res)) + mset (map fst (rejected res)) = mset rels
     \<and> (distinct rels \<longrightarrow>
          (\<forall>x\<in>set rels. (x \<in> fst ` set (applied res)) \<noteq> (x \<in> fst ` set (rejected res))))"
proof -
  from apply_changes_Inr [OF assms] obtain st where
    l: "apply_loop repo_root cfg (patch_changes p) (init_state files0) = (None, st)"
    and eq: "applied res = s_applied st" "rejected res = s_rejected st"
    by blast
  from apply_loop_partition [OF l] eq obtain rels where
    rels: "map (rel_of repo_root) (patch_changes p) = map Some rels"
    and m: "mset (map fst (applied res)) + mset (map fst (rejected res)) = mset rels"
    by (auto simp: init_state_def)
  have "\<forall>x\<in>set rels. (x \<in> fst ` set (applied res)) \<noteq> (x \<in> fst ` set (rejected res))"
    if d: "distinct rels"
  proof -
    from m have mm: "mset (map fst (applied res) @ map fst (rejected res)) = mset rels"
      by simp
    then have "distinct (map fst (applied res) @ map fst (rejected res))"
      using d by (metis mset_eq_imp_distinct_iff)
    then have disj: "set (map fst (applied res)) \<inter> set (map fst (rejected res)) = {}"
      by simp
    from mm have "set (map fst (applied res) @ map fst (rejected res)) = set rels"
      by (rule mset_eq_setD)
    then have cover: "set rels = set (map fst (applied res)) \<union> set (map fst (rejected res))"
      by simp
    from disj cover show ?thesis by auto
  qed
  with rels m show ?thesis by blast
qed

theorem each_change_one_outcome_witness:
  "fst (apply_changes demo_root demo_cfg one_change demo_files) = Inr one_change_result
   \<and> (\<exists>rels. map (rel_of demo_root) (patch_changes one_change) = map Some rels
     \<and> mset (map fst (applied one_change_result)) + mset (map fst (rejected one_change_result))
         = mset rels
     \<and> (distinct rels \<longrightarrow>
          (\<forall>x\<in>set rels. (x \<in> fst ` set (applied one_change_result))
             \<noteq> (x \<in> fst ` set (rejected one_change_result)))))"
  using each_change_one_outcome [OF pair_of_fst [OF apply_one_change]] apply_one_change
  by blast

text \<open>
  The claim as stated fails when a patch names a file twice: with a budget of 2 the first
  change of \<open>a.txt\<close> is applied and the second is rejected, so the path is in both lists.
\<close>
theorem same_path_in_both_lists:
  "fst (apply_changes demo_root tight_cfg same_file_twice demo_files)
     = Inr \<lparr>applied = [(''a.txt'', 2)], rejected = [(''a.txt'', max_change_lines_exceeded)],
            total_changed = 2, backups = [''a.txt.apr.bak'']\<rparr>"
  by code_simp

subsection \<open>C8: a missing target\<close>

text \<open>
  C8. Take a change whose path holds no null character and resolves inside the repository
  root, and whose target does not exist (\<open>exists\<close> answers \<open>False\<close>). The step rejects it:
  with \<open>not_found\<close> when the path passes the scope guard, which the loop asks first, and
  with \<open>out_of_scope\<close> otherwise. In both cases the step adds that one entry to the rejected
  list and changes nothing else (no backup is recorded, no file is written), and the loop
  goes on with the next change.
\<close>
theorem missing_target_rejected:
  assumes "\<not> embedded_null (joinpath repo_root (path c))"
    and "relative_to (resolve (joinpath repo_root (path c))) repo_root = Inr r"
    and "path_exists (s_files st) (resolve (joinpath repo_root (path c))) = Inr False"
  shows "apply_change repo_root cfg c st
           = (None, st\<lparr>s_rejected := s_rejected st
                @ [(as_posix r, if within_scope (as_posix r) cfg then not_found else out_of_scope)]\<rparr>)
       \<and> apply_loop repo_root cfg (c # cs) st
           = apply_loop repo_root cfg cs
               (st\<lparr>s_rejected := s_rejected st
                  @ [(as_posix r, if within_scope (as_posix r) cfg then not_found else out_of_scope)]\<rparr>)"
  using assms(2,3) by (simp add: apply_change_def Let_def reject_def)

theorem missing_target_rejected_witness:
  "\<not> embedded_null (joinpath demo_root (path gone_txt))
   \<and> relative_to (resolve (joinpath demo_root (path gone_txt))) demo_root = Inr [''gone.txt'']
   \<and> path_exists (s_files (init_state demo_files)) (resolve (joinpath demo_root (path gone_txt)))
       = Inr False
   \<and> within_scope (as_posix [''gone.txt'']) demo_cfg
   \<and> apply_change demo_root demo_cfg gone_txt (init_state demo_files)
       = (None, (init_state demo_files)\<lparr>s_rejected := s_rejected (init_state demo_files)
             @ [(as_posix [''gone.txt''], not_found)]\<rparr>)"
proof -
  have n: "\<not> embedded_null (joinpath demo_root (path gone_txt))" by code_simp
  have a: "relative_to (resolve (joinpath demo_root (path gone_txt))) demo_root = Inr [''gone.txt'']"
    by code_simp
  have c: "path_exists (s_files (init_state demo_files))
      (resolve (joinpath demo_root (path gone_txt))) = Inr False"
    by code_simp
  have b: "within_scope (as_posix [''gone.txt'']) demo_cfg" by code_simp
  from missing_target_rejected [OF n a c, of demo_cfg "[]"] b
  have "apply_change demo_root demo_cfg gone_txt (init_state demo_files)
       = (None, (init_state demo_files)\<lparr>s_rejected := s_rejected (init_state demo_files)
             @ [(as_posix [''gone.txt''], not_found)]\<rparr>)"
    by simp
  with n a c b show ?thesis by (intro conjI)
qed

subsection \<open>C9: a second rollback\<close>

text \<open>
  C9. If the first call of \<open>rollback\<close> has consumed the backups of a result, so that none
  of them exists afterwards, a second call with the same result skips every entry, raises
  nothing and leaves the file system exactly as the first call left it.
\<close>
theorem rollback_second_call_noop:
  assumes "\<forall>b\<in>set (backups res).
      path_exists (snd (rollback repo_root res files0)) (resolve (joinpath repo_root b))
        = Inr False"
  shows "rollback repo_root res (snd (rollback repo_root res files0))
           = (None, snd (rollback repo_root res files0))"
  using assms by (simp add: rollback_def rollback_loop_absent)

theorem rollback_second_call_noop_witness:
  "path_exists
       (snd (rollback demo_root one_change_result
               (snd (apply_changes demo_root demo_cfg one_change demo_files))))
       (resolve (joinpath demo_root ''a.txt.apr.bak'')) = Inr False
   \<and> backups one_change_result = [''a.txt.apr.bak'']
   \<and> rollback demo_root one_change_result
        (snd (rollback demo_root one_change_result
                (snd (apply_changes demo_root demo_cfg one_change demo_files))))
       = (None, snd (rollback demo_root one_change_result
                (snd (apply_changes demo_root demo_cfg one_change demo_files))))"
proof -
  have h: "\<forall>b\<in>set (backups one_change_result).
      path_exists
          (snd (rollback demo_root one_change_result
                  (snd (apply_changes demo_root demo_cfg one_change demo_files))))
          (resolve (joinpath demo_root b)) = Inr False"
    by code_simp
  have b: "backups one_change_result = [''a.txt.apr.bak'']"
    by (simp add: one_change_result_def)
  from h b have a: "path_exists
       (snd (rollback demo_root one_change_result
               (snd (apply_changes demo_root demo_cfg one_change demo_files))))
       (resolve (joinpath demo_root ''a.txt.apr.bak'')) = Inr False"
    by simp
  from rollback_second_call_noop [OF h] a b show ?thesis by (intro conjI)
qed

subsection \<open>C2: a path that leaves the repository\<close>

text \<open>
  C2, as amended. When the path of a change resolves outside the repository root,
  \<open>relative_to\<close> raises and \<open>apply_changes\<close> is left by that exception: it returns no result,
  the changes before it stay applied exactly as if the patch had ended there, and the
  changes after it are not processed.
\<close>
theorem escaping_path_aborts:
  assumes "fst (apply_changes repo_root cfg \<lparr>changes = Some pre\<rparr> files0) = Inr res"
    and "relative_to (resolve (joinpath repo_root (path c))) repo_root = Inl e"
  shows "apply_changes repo_root cfg \<lparr>changes = Some (pre @ c # post)\<rparr> files0
           = (Inl e, snd (apply_changes repo_root cfg \<lparr>changes = Some pre\<rparr> files0))"
proof -
  from apply_changes_Inr [OF pair_of_fst [OF assms(1)]] obtain st where
    l: "apply_loop repo_root cfg pre (init_state files0) = (None, st)"
    and f: "snd (apply_changes repo_root cfg \<lparr>changes = Some pre\<rparr> files0) = s_files st"
    by (auto simp: patch_changes_def)
  from assms(2) have "apply_change repo_root cfg c st = (Some e, st)"
    by (simp add: apply_change_def Let_def)
  then have "apply_loop repo_root cfg (c # post) st = (Some e, st)" by simp
  with apply_loop_append [OF l, of "c # post"]
  have "apply_loop repo_root cfg (pre @ c # post) (init_state files0) = (Some e, st)" by simp
  with f show ?thesis by (simp add: apply_changes_def patch_changes_def)
qed

theorem escaping_path_aborts_witness:
  "fst (apply_changes demo_root demo_cfg \<lparr>changes = Some one_change_pre\<rparr> demo_files)
     = Inr one_change_result
   \<and> relative_to (resolve (joinpath demo_root (path escaping_change))) demo_root = Inl ValueError
   \<and> apply_changes demo_root demo_cfg
        \<lparr>changes = Some (one_change_pre @ escaping_change # [later_change])\<rparr> demo_files
       = (Inl ValueError,
          snd (apply_changes demo_root demo_cfg \<lparr>changes = Some one_change_pre\<rparr> demo_files))"
proof -
  have a: "fst (apply_changes demo_root demo_cfg \<lparr>changes = Some one_change_pre\<rparr> demo_files)
     = Inr one_change_result"
    by code_simp
  have b: "relative_to (resolve (joinpath demo_root (path escaping_change))) demo_root
     = Inl ValueError"
    by code_simp
  from escaping_path_aborts [OF a b, of "[later_change]"] a b show ?thesis by blast
qed

text \<open>
  The claim as stated fails: a patch that begins with \<open>../x\<close> gives no result at all, and
  the valid change of \<open>a.txt\<close> that follows is not applied.
\<close>
theorem escaping_path_raises:
  "fst (apply_changes demo_root demo_cfg escaping demo_files) = Inl ValueError
   \<and> snd (apply_changes demo_root demo_cfg escaping demo_files) [''repo'', ''a.txt'']
       = Some (File ''old'')"
proof -
  have "fst (apply_changes demo_root demo_cfg escaping demo_files) = Inl ValueError"
    by code_simp
  moreover have "snd (apply_changes demo_root demo_cfg escaping demo_files) [''repo'', ''a.txt'']
       = Some (File ''old'')"
    by code_simp
  ultimately show ?thesis by simp
qed

subsection \<open>C5: snapshots\<close>

text \<open>
  C5, as amended. A snapshot is written once for every applied change, before that change
  overwrites its target. A step after which the target of its change differs from before
  has read the old text of the target, has stored that text at the backup path, which is
  another path than the target, and has recorded that backup; whatever the backup path
  held before is replaced. A step that does not raise either is an applied step, with one
  new backup, one new applied entry, the old text at the backup path and the new content
  at the target, or records no backup and leaves every file as it was. The returned lists
  of backups and applied entries have the same length, and the backups are pairwise
  different when the applied paths are.
\<close>
theorem snapshot_before_each_overwrite:
  "(\<forall>e st'. apply_change repo_root cfg c st = (e, st')
        \<and> s_files st' (resolve (joinpath repo_root (path c)))
            \<noteq> s_files st (resolve (joinpath repo_root (path c))) \<longrightarrow>
      (\<exists>old bak.
         read_text (s_files st) (resolve (joinpath repo_root (path c))) = Inr old
         \<and> with_suffix (resolve (joinpath repo_root (path c)))
             (suffix_of (path_name (resolve (joinpath repo_root (path c)))) @ ''.apr.bak'') = Inr bak
         \<and> bak \<noteq> resolve (joinpath repo_root (path c))
         \<and> s_files st' bak = Some (File old)
         \<and> s_backups st' = s_backups st @ [bak]))
   \<and> (\<forall>st'. apply_change repo_root cfg c st = (None, st') \<longrightarrow>
        (\<exists>old bak rel n.
           read_text (s_files st) (resolve (joinpath repo_root (path c))) = Inr old
           \<and> with_suffix (resolve (joinpath repo_root (path c)))
               (suffix_of (path_name (resolve (joinpath repo_root (path c)))) @ ''.apr.bak'') = Inr bak
           \<and> s_backups st' = s_backups st @ [bak]
           \<and> s_applied st' = s_applied st @ [(rel, n)]
           \<and> s_files st' = (s_files st)(bak \<mapsto> File old,
                 resolve (joinpath repo_root (path c)) \<mapsto> File (change_content c)))
        \<or> (s_backups st' = s_backups st \<and> s_applied st' = s_applied st
            \<and> s_files st' = s_files st))
   \<and> (\<forall>res files1. apply_changes repo_root cfg p files0 = (Inr res, files1) \<longrightarrow>
        length (backups res) = length (applied res)
        \<and> (distinct (map fst (applied res)) \<longrightarrow> distinct (backups res)))"
proof -
  let ?P = "resolve (joinpath repo_root (path c))"
  have p1: "\<forall>e st'. apply_change repo_root cfg c st = (e, st')
        \<and> s_files st' ?P \<noteq> s_files st ?P \<longrightarrow>
      (\<exists>old bak.
         read_text (s_files st) ?P = Inr old
         \<and> with_suffix ?P (suffix_of (path_name ?P) @ ''.apr.bak'') = Inr bak
         \<and> bak \<noteq> ?P
         \<and> s_files st' bak = Some (File old)
         \<and> s_backups st' = s_backups st @ [bak])"
  proof (intro allI impI, elim conjE)
    fix e st'
    assume s: "apply_change repo_root cfg c st = (e, st')"
      and ne: "s_files st' ?P \<noteq> s_files st ?P"
    show "\<exists>old bak.
         read_text (s_files st) ?P = Inr old
         \<and> with_suffix ?P (suffix_of (path_name ?P) @ ''.apr.bak'') = Inr bak
         \<and> bak \<noteq> ?P
         \<and> s_files st' bak = Some (File old)
         \<and> s_backups st' = s_backups st @ [bak]"
    proof (cases e)
      case None
      with s have "apply_change repo_root cfg c st = (None, st')" by simp
      then show ?thesis
      proof (cases rule: apply_change_NoneE)
        case (rejected r rsn)
        with ne show ?thesis by (simp add: reject_def)
      next
        case (applied r old bak)
        from applied(5) have "bak \<noteq> ?P" by (rule with_suffix_neq) simp
        with applied show ?thesis by simp
      qed
    next
      case (Some x)
      with s have "apply_change repo_root cfg c st = (Some x, st')" by simp
      then show ?thesis
      proof (cases rule: apply_change_SomeE)
        case unchanged
        with ne show ?thesis by simp
      next
        case (backed_up old bak)
        from backed_up(3) have "bak \<noteq> ?P" by (rule with_suffix_neq) simp
        with backed_up ne show ?thesis by simp
      qed
    qed
  qed
  have p2: "\<forall>st'. apply_change repo_root cfg c st = (None, st') \<longrightarrow>
        (\<exists>old bak rel n.
           read_text (s_files st) ?P = Inr old
           \<and> with_suffix ?P (suffix_of (path_name ?P) @ ''.apr.bak'') = Inr bak
           \<and> s_backups st' = s_backups st @ [bak]
           \<and> s_applied st' = s_applied st @ [(rel, n)]
           \<and> s_files st' = (s_files st)(bak \<mapsto> File old, ?P \<mapsto> File (change_content c)))
        \<or> (s_backups st' = s_backups st \<and> s_applied st' = s_applied st
            \<and> s_files st' = s_files st)"
  proof (intro allI impI)
    fix st'
    assume "apply_change repo_root cfg c st = (None, st')"
    then show "(\<exists>old bak rel n.
           read_text (s_files st) ?P = Inr old
           \<and> with_suffix ?P (suffix_of (path_name ?P) @ ''.apr.bak'') = Inr bak
           \<and> s_backups st' = s_backups st @ [bak]
           \<and> s_applied st' = s_applied st @ [(rel, n)]
           \<and> s_files st' = (s_files st)(bak \<mapsto> File old, ?P \<mapsto> File (change_content c)))
        \<or> (s_backups st' = s_backups st \<and> s_applied st' = s_applied st
            \<and> s_files st' = s_files st)"
    proof (cases rule: apply_change_NoneE)
      case (rejected r rsn)
      then show ?thesis by (simp add: reject_def)
    next
      case (applied r old bak)
      then show ?thesis by simp
    qed
  qed
  have p3: "\<forall>res files1. apply_changes repo_root cfg p files0 = (Inr res, files1) \<longrightarrow>
        length (backups res) = length (applied res)
        \<and> (distinct (map fst (applied res)) \<longrightarrow> distinct (backups res))"
  proof (intro allI impI)
    fix res files1
    assume "apply_changes repo_root cfg p files0 = (Inr res, files1)"
    then have b: "backups res = map (\<lambda>(rel, n). rel @ ''.apr.bak'') (applied res)"
      by (rule apply_changes_backups)
    from b have b': "backups res = map (\<lambda>rel. rel @ ''.apr.bak'') (map fst (applied res))"
      by (simp add: case_prod_beta comp_def)
    have g: "distinct (map (\<lambda>rel. rel @ ''.apr.bak'') xs)" if "distinct xs"
      for xs :: "string list"
      using that by (simp add: distinct_map inj_on_def)
    have "distinct (map fst (applied res)) \<longrightarrow> distinct (backups res)"
      unfolding b' by (rule impI) (rule g)
    with b show "length (backups res) = length (applied res)
        \<and> (distinct (map fst (applied res)) \<longrightarrow> distinct (backups res))"
      by simp
  qed
  from p1 p2 p3 show ?thesis by (intro conjI)
qed

theorem snapshot_before_each_overwrite_witness:
  "s_files (snd (apply_change demo_root demo_cfg first_change (init_state demo_files)))
       (resolve (joinpath demo_root (path first_change)))
     \<noteq> s_files (init_state demo_files) (resolve (joinpath demo_root (path first_change)))
   \<and> (\<exists>old bak.
         read_text (s_files (init_state demo_files))
             (resolve (joinpath demo_root (path first_change))) = Inr old
         \<and> with_suffix (resolve (joinpath demo_root (path first_change)))
             (suffix_of (path_name (resolve (joinpath demo_root (path first_change))))
                @ ''.apr.bak'') = Inr bak
         \<and> bak \<noteq> resolve (joinpath demo_root (path first_change))
         \<and> s_files (snd (apply_change demo_root demo_cfg first_change (init_state demo_files))) bak
             = Some (File old)
         \<and> s_backups (snd (apply_change demo_root demo_cfg first_change (init_state demo_files)))
             = s_backups (init_state demo_files) @ [bak])"
proof -
  have a: "s_files (snd (apply_change demo_root demo_cfg first_change (init_state demo_files)))
      (resolve (joinpath demo_root (path first_change))) = Some (File ''new'')"
    by code_simp
  have b: "s_files (init_state demo_files) (resolve (joinpath demo_root (path first_change)))
      = Some (File ''old'')"
    by code_simp
  have ne: "s_files (snd (apply_change demo_root demo_cfg first_change (init_state demo_files)))
       (resolve (joinpath demo_root (path first_change)))
     \<noteq> s_files (init_state demo_files) (resolve (joinpath demo_root (path first_change)))"
  proof
    assume "s_files (snd (apply_change demo_root demo_cfg first_change (init_state demo_files)))
       (resolve (joinpath demo_root (path first_change)))
      = s_files (init_state demo_files) (resolve (joinpath demo_root (path first_change)))"
    with a b have "Some (File ''new'') = Some (File ''old'')" by simp
    then show False by simp
  qed
  have pr: "apply_change demo_root demo_cfg first_change (init_state demo_files)
      = (fst (apply_change demo_root demo_cfg first_change (init_state demo_files)),
         snd (apply_change demo_root demo_cfg first_change (init_state demo_files)))"
    by simp
  from snapshot_before_each_overwrite
    [of demo_root demo_cfg first_change "init_state demo_files" one_change demo_files,
     THEN conjunct1, rule_format,
     of "fst (apply_change demo_root demo_cfg first_change (init_state demo_files))"
        "snd (apply_change demo_root demo_cfg first_change (init_state demo_files))",
     OF conjI [OF pr ne]] ne
  show ?thesis by (intro conjI)
qed

text \<open>
  The claim as stated fails when a patch names a file twice: the snapshot of \<open>a.txt\<close> is
  written twice, and the second one replaces the original text \<open>old\<close> by the text \<open>b\<close> of
  the first change.
\<close>
theorem same_file_backed_up_twice:
  "fst (apply_changes demo_root demo_cfg same_file_twice demo_files)
     = Inr \<lparr>applied = [(''a.txt'', 2), (''a.txt'', 2)], rejected = [], total_changed = 4,
            backups = [''a.txt.apr.bak'', ''a.txt.apr.bak'']\<rparr>
   \<and> demo_files [''repo'', ''a.txt''] = Some (File ''old'')
   \<and> snd (apply_changes demo_root demo_cfg same_file_twice demo_files)
       [''repo'', ''a.txt.apr.bak''] = Some (File ''b'')"
proof -
  have "fst (apply_changes demo_root demo_cfg same_file_twice demo_files)
     = Inr \<lparr>applied = [(''a.txt'', 2), (''a.txt'', 2)], rejected = [], total_changed = 4,
            backups = [''a.txt.apr.bak'', ''a.txt.apr.bak'']\<rparr>"
    by code_simp
  moreover have "demo_files [''repo'', ''a.txt''] = Some (File ''old'')" by code_simp
  moreover have "snd (apply_changes demo_root demo_cfg same_file_twice demo_files)
       [''repo'', ''a.txt.apr.bak''] = Some (File ''b'')"
    by code_simp
  ultimately show ?thesis by simp
qed

subsection \<open>C1: rollback\<close>

text \<open>
  C1 does not hold of the code. \<open>rollback\<close> computes the original path with
  \<open>with_suffix("")\<close>, which removes only the last suffix \<open>.bak\<close> of the backup name: the
  saved text is written to \<open>a.txt.apr\<close>, and \<open>a.txt\<close> keeps the patched content. Here the
  file \<open>a.txt\<close> holds \<open>old\<close>, the patch replaces it by \<open>new\<close>, and \<open>rollback\<close> is called with
  the returned result.
\<close>
theorem rollback_restores_wrong_path:
  "demo_files [''repo'', ''a.txt''] = Some (File ''old'')
   \<and> fst (apply_changes demo_root demo_cfg one_change demo_files) = Inr one_change_result
   \<and> fst (rollback demo_root one_change_result
            (snd (apply_changes demo_root demo_cfg one_change demo_files))) = None
   \<and> snd (rollback demo_root one_change_result
            (snd (apply_changes demo_root demo_cfg one_change demo_files)))
        [''repo'', ''a.txt''] = Some (File ''new'')
   \<and> snd (rollback demo_root one_change_result
            (snd (apply_changes demo_root demo_cfg one_change demo_files)))
        [''repo'', ''a.txt.apr''] = Some (File ''old'')
   \<and> snd (rollback demo_root one_change_result
            (snd (apply_changes demo_root demo_cfg one_change demo_files)))
        [''repo'', ''a.txt.apr.bak''] = None
   \<and> with_suffix [''repo'', ''a.txt.apr.bak''] [] = Inr [''repo'', ''a.txt.apr'']"
proof -
  have "demo_files [''repo'', ''a.txt''] = Some (File ''old'')" by code_simp
  moreover have "fst (rollback demo_root one_change_result
            (snd (apply_changes demo_root demo_cfg one_change demo_files))) = None"
    by code_simp
  moreover have "snd (rollback demo_root one_change_result
            (snd (apply_changes demo_root demo_cfg one_change demo_files)))
        [''repo'', ''a.txt''] = Some (File ''new'')"
    by code_simp
  moreover have "snd (rollback demo_root one_change_result
            (snd (apply_changes demo_root demo_cfg one_change demo_files)))
        [''repo'', ''a.txt.apr''] = Some (File ''old'')"
    by code_simp
  moreover have "snd (rollback demo_root one_change_result
            (snd (apply_changes demo_root demo_cfg one_change demo_files)))
        [''repo'', ''a.txt.apr.bak''] = None"
    by code_simp
  moreover have "with_suffix [''repo'', ''a.txt.apr.bak''] [] = Inr [''repo'', ''a.txt.apr'']"
    by code_simp
  ultimately show ?thesis using apply_one_change by simp
qed

end
